theory Spec2Isabelle
  imports Main
begin

section \<open>Errors\<close>

text \<open>
  A thrown JavaScript value. \<open>Error msg\<close> is \<^verbatim>\<open>new Error(msg)\<close> (also what a
  failing network call or a reverting transaction rejects with); \<open>TypeError msg\<close> is
  what the engine throws when a property of \<^verbatim>\<open>undefined\<close> is read.
\<close>

datatype error = Error string | TypeError string

section \<open>ExpiringMultiPartyEventClient\<close>

subsection \<open>Events\<close>

text \<open>
  An event as web3 returns it: \<^verbatim>\<open>transactionHash\<close>, \<^verbatim>\<open>blockNumber\<close> and the decoded
  \<^verbatim>\<open>returnValues\<close>. Reading a key that is absent gives \<^verbatim>\<open>undefined\<close>, here \<open>None\<close>.
  The object the client caches has the same two leading fields and the properties
  the source copies, by name, in the order the object literal lists them.
\<close>

record event_core =
  transactionHash :: string
  blockNumber :: nat

record raw_event = event_core +
  returnValues :: "(string \<times> string) list"

record cached_event = event_core +
  props :: "(string \<times> string option) list"

definition returnValue :: "raw_event \<Rightarrow> string \<Rightarrow> string option" where
  "returnValue event k = map_of (returnValues event) k"

definition get_prop :: "cached_event \<Rightarrow> string \<Rightarrow> string option" where
  "get_prop e k = (case map_of (props e) k of Some v \<Rightarrow> v | None \<Rightarrow> None)"

text \<open>The object literal pushed for every kind but NewSponsor.\<close>

definition mk_record :: "string list \<Rightarrow> raw_event \<Rightarrow> cached_event" where
  "mk_record keys event =
     \<lparr>transactionHash = transactionHash event, blockNumber = blockNumber event,
      props = map (\<lambda>k. (k, returnValue event k)) keys\<rparr>"

text \<open>
  The object literal pushed for a NewSponsor event matched with
  \<open>createEvent[0]\<close>.
\<close>

definition mk_newSponsor :: "raw_event \<Rightarrow> cached_event \<Rightarrow> cached_event" where
  "mk_newSponsor event c =
     \<lparr>transactionHash = transactionHash event, blockNumber = blockNumber event,
      props = [(''sponsor'', returnValue event ''sponsor''),
               (''collateralAmount'', get_prop c ''collateralAmount''),
               (''tokenAmount'', get_prop c ''tokenAmount'')]\<rparr>"

subsection \<open>The client object and the arrays it refers to\<close>

text \<open>
  The twelve fields of the client hold references to JavaScript arrays; the accessors
  hand the same references out, and \<^verbatim>\<open>push\<close> changes the array a reference points
  to. The arrays therefore live in a store, and a field holds an address.
  \<open>requests\<close> records the \<^verbatim>\<open>getPastEvents\<close> calls issued so far:
  event name, \<^verbatim>\<open>fromBlock\<close>, \<^verbatim>\<open>toBlock\<close>.
\<close>

type_synonym ref = nat

record client =
  liquidationEvents :: ref
  disputeEvents :: ref
  disputeSettlementEvents :: ref
  newSponsorEvents :: ref
  depositEvents :: ref
  createEvents :: ref
  withdrawEvents :: ref
  redeemEvents :: ref
  regularFeeEvents :: ref
  finalFeeEvents :: ref
  liquidationWithdrawnEvents :: ref
  settleExpiredPositionEvents :: ref
  firstBlockToSearch :: nat
  lastUpdateTimestamp :: nat

record state =
  self :: client
  store :: "ref \<Rightarrow> cached_event list"
  next_ref :: ref
  requests :: "(string \<times> nat \<times> nat) list"

text \<open>
  What the chain answers during one call of \<^verbatim>\<open>update\<close>; every call
  may reject.
\<close>

record chain =
  getBlockNumber :: "error + nat"
  getPastEvents :: "string \<Rightarrow> nat \<Rightarrow> nat \<Rightarrow> error + raw_event list"
  getCurrentTime :: "error + nat"

definition push :: "ref \<Rightarrow> cached_event \<Rightarrow> state \<Rightarrow> state" where
  "push r x s = s\<lparr>store := (store s)(r := store s r @ [x])\<rparr>"

text \<open>The constructor: twelve new empty arrays, the cursor, timestamp 0.\<close>

definition constructor :: "nat \<Rightarrow> state" where
  "constructor latestBlockNumber =
     \<lparr>self = \<lparr>liquidationEvents = 0, disputeEvents = 1, disputeSettlementEvents = 2,
              newSponsorEvents = 3, depositEvents = 4, createEvents = 5,
              withdrawEvents = 6, redeemEvents = 7, regularFeeEvents = 8,
              finalFeeEvents = 9, liquidationWithdrawnEvents = 10,
              settleExpiredPositionEvents = 11,
              firstBlockToSearch = latestBlockNumber, lastUpdateTimestamp = 0\<rparr>,
      store = (\<lambda>_. []), next_ref = 12, requests = []\<rparr>"

text \<open>
  \<^verbatim>\<open>clearState\<close>: every field is assigned a new empty array;
  nothing else changes.
\<close>

definition clearState :: "state \<Rightarrow> state" where
  "clearState s =
     (let n = next_ref s in
      s\<lparr>self := (self s)\<lparr>liquidationEvents := n, disputeEvents := n + 1,
              disputeSettlementEvents := n + 2, newSponsorEvents := n + 3,
              depositEvents := n + 4, createEvents := n + 5, withdrawEvents := n + 6,
              redeemEvents := n + 7, regularFeeEvents := n + 8, finalFeeEvents := n + 9,
              liquidationWithdrawnEvents := n + 10,
              settleExpiredPositionEvents := n + 11\<rparr>,
        store := (\<lambda>r. if n \<le> r \<and> r < n + 12 then [] else store s r),
        next_ref := n + 12\<rparr>)"

text \<open>The accessors return the field, that is the reference.\<close>

definition getAllNewSponsorEvents :: "state \<Rightarrow> ref" where
  "getAllNewSponsorEvents s = newSponsorEvents (self s)"

definition getAllLiquidationEvents :: "state \<Rightarrow> ref" where
  "getAllLiquidationEvents s = liquidationEvents (self s)"

definition getAllDisputeEvents :: "state \<Rightarrow> ref" where
  "getAllDisputeEvents s = disputeEvents (self s)"

definition getAllDisputeSettlementEvents :: "state \<Rightarrow> ref" where
  "getAllDisputeSettlementEvents s = disputeSettlementEvents (self s)"

definition getAllDepositEvents :: "state \<Rightarrow> ref" where
  "getAllDepositEvents s = depositEvents (self s)"

definition getAllCreateEvents :: "state \<Rightarrow> ref" where
  "getAllCreateEvents s = createEvents (self s)"

definition getAllWithdrawEvents :: "state \<Rightarrow> ref" where
  "getAllWithdrawEvents s = withdrawEvents (self s)"

definition getAllRedeemEvents :: "state \<Rightarrow> ref" where
  "getAllRedeemEvents s = redeemEvents (self s)"

definition getAllRegularFeeEvents :: "state \<Rightarrow> ref" where
  "getAllRegularFeeEvents s = regularFeeEvents (self s)"

definition getAllFinalFeeEvents :: "state \<Rightarrow> ref" where
  "getAllFinalFeeEvents s = finalFeeEvents (self s)"

definition getAllLiquidationWithdrawnEvents :: "state \<Rightarrow> ref" where
  "getAllLiquidationWithdrawnEvents s = liquidationWithdrawnEvents (self s)"

definition getAllSettleExpiredPositionEvents :: "state \<Rightarrow> ref" where
  "getAllSettleExpiredPositionEvents s = settleExpiredPositionEvents (self s)"

definition getLastUpdateTime :: "state \<Rightarrow> nat" where
  "getLastUpdateTime s = lastUpdateTimestamp (self s)"

text \<open>The twelve accessors, in the order the class declares them.\<close>

definition accessors :: "(state \<Rightarrow> ref) list" where
  "accessors =
     [getAllNewSponsorEvents, getAllLiquidationEvents, getAllDisputeEvents,
      getAllDisputeSettlementEvents, getAllDepositEvents, getAllCreateEvents,
      getAllWithdrawEvents, getAllRedeemEvents, getAllRegularFeeEvents,
      getAllFinalFeeEvents, getAllLiquidationWithdrawnEvents,
      getAllSettleExpiredPositionEvents]"

subsection \<open>update\<close>

text \<open>
  One \<^verbatim>\<open>getPastEvents\<close> call of \<^verbatim>\<open>update\<close>: from \<^verbatim>\<open>this.firstBlockToSearch\<close> to
  \<^verbatim>\<open>currentBlockNumber\<close>.
\<close>

definition fetch ::
  "chain \<Rightarrow> string \<Rightarrow> nat \<Rightarrow> state \<Rightarrow> (error + raw_event list) \<times> state" where
  "fetch ch name currentBlockNumber s =
     (getPastEvents ch name (firstBlockToSearch (self s)) currentBlockNumber,
      s\<lparr>requests := requests s @ [(name, firstBlockToSearch (self s), currentBlockNumber)]\<rparr>)"

text \<open>
  The \<^verbatim>\<open>for (let event of ...) this.<field>.push({...})\<close> loop.
\<close>

definition push_all ::
  "(client \<Rightarrow> ref) \<Rightarrow> (raw_event \<Rightarrow> cached_event) \<Rightarrow> raw_event list \<Rightarrow> state \<Rightarrow> state" where
  "push_all field mk evs s = foldl (\<lambda>s event. push (field (self s)) (mk event) s) s evs"

text \<open>
  A fetch followed by its loop; a rejected fetch ends \<^verbatim>\<open>update\<close>
  there.
\<close>

definition fetch_and_push ::
  "chain \<Rightarrow> nat \<Rightarrow> string \<Rightarrow> (client \<Rightarrow> ref) \<Rightarrow> string list \<Rightarrow> state
     \<Rightarrow> error option \<times> state" where
  "fetch_and_push ch currentBlockNumber name field keys s =
     (case fetch ch name currentBlockNumber s of
        (Inl e, s') \<Rightarrow> (Some e, s')
      | (Inr evs, s') \<Rightarrow> (None, push_all field (mk_record keys) evs s'))"

text \<open>
  The NewSponsor loop. \<^verbatim>\<open>this.createEvents.filter(...)\<close> runs over the whole cached
  array; \<^verbatim>\<open>createEvent[0].collateralAmount\<close> throws a TypeError when the filter
  found nothing, after the pushes of the events before. The message of that TypeError is
  the engine's and differs from one version to another; \<open>type_error\<close> carries one of them,
  and nothing below depends on its text.
\<close>

definition type_error :: error where
  "type_error = TypeError ''Cannot read property 'collateralAmount' of undefined''"

fun newSponsor_loop :: "raw_event list \<Rightarrow> state \<Rightarrow> error option \<times> state" where
  "newSponsor_loop [] s = (None, s)"
| "newSponsor_loop (event # rest) s =
     (case filter (\<lambda>e. blockNumber e = blockNumber event) (store s (createEvents (self s))) of
        [] \<Rightarrow> (Some type_error, s)
      | c # _ \<Rightarrow>
          newSponsor_loop rest (push (newSponsorEvents (self s)) (mk_newSponsor event c) s))"

definition fetch_newSponsor :: "chain \<Rightarrow> nat \<Rightarrow> state \<Rightarrow> error option \<times> state" where
  "fetch_newSponsor ch currentBlockNumber s =
     (case fetch ch ''NewSponsor'' currentBlockNumber s of
        (Inl e, s') \<Rightarrow> (Some e, s')
      | (Inr evs, s') \<Rightarrow> newSponsor_loop evs s')"

text \<open>Statements in sequence: the first one that throws ends the sequence.\<close>

fun in_sequence :: "(state \<Rightarrow> error option \<times> state) list \<Rightarrow> state \<Rightarrow> error option \<times> state" where
  "in_sequence [] s = (None, s)"
| "in_sequence (f # fs) s =
     (case f s of (Some e, s') \<Rightarrow> (Some e, s') | (None, s') \<Rightarrow> in_sequence fs s')"

text \<open>The twelve fetches of \<^verbatim>\<open>update\<close>, in source order.\<close>

definition fetches :: "chain \<Rightarrow> nat \<Rightarrow> (state \<Rightarrow> error option \<times> state) list" where
  "fetches ch cur =
     [fetch_and_push ch cur ''LiquidationCreated'' liquidationEvents
        [''sponsor'', ''liquidator'', ''liquidationId'', ''tokensOutstanding'',
         ''lockedCollateral'', ''liquidatedCollateral''],
      fetch_and_push ch cur ''LiquidationDisputed'' disputeEvents
        [''sponsor'', ''liquidator'', ''disputer'', ''liquidationId'', ''disputeBondAmount''],
      fetch_and_push ch cur ''DisputeSettled'' disputeSettlementEvents
        [''caller'', ''sponsor'', ''liquidator'', ''disputer'', ''liquidationId'',
         ''disputeSucceeded''],
      fetch_and_push ch cur ''PositionCreated'' createEvents
        [''sponsor'', ''collateralAmount'', ''tokenAmount''],
      fetch_newSponsor ch cur,
      fetch_and_push ch cur ''Deposit'' depositEvents [''sponsor'', ''collateralAmount''],
      fetch_and_push ch cur ''Withdrawal'' withdrawEvents [''sponsor'', ''collateralAmount''],
      fetch_and_push ch cur ''Redeem'' redeemEvents
        [''sponsor'', ''collateralAmount'', ''tokenAmount''],
      fetch_and_push ch cur ''RegularFeesPaid'' regularFeeEvents [''regularFee'', ''lateFee''],
      fetch_and_push ch cur ''FinalFeesPaid'' finalFeeEvents [''amount''],
      fetch_and_push ch cur ''LiquidationWithdrawn'' liquidationWithdrawnEvents
        [''caller'', ''withdrawalAmount'', ''liquidationStatus''],
      fetch_and_push ch cur ''SettleExpiredPosition'' settleExpiredPositionEvents
        [''caller'', ''collateralReturned'', ''tokensBurned'']]"

text \<open>
  \<^verbatim>\<open>update\<close>. The cursor is assigned before \<^verbatim>\<open>getCurrentTime\<close> is awaited, so a
  rejected \<^verbatim>\<open>getCurrentTime\<close> leaves the cursor advanced and the timestamp as it was.
  The call of \<^verbatim>\<open>logger.debug\<close> that ends the function changes nothing of the client.

  Block numbers are natural numbers here. In the source they are JavaScript numbers, and
  \<^verbatim>\<open>currentBlockNumber + 1\<close> is the sum of two of them: it is the sum of natural
  numbers for every height below \<open>2 ^ 53\<close>, and no longer from that height on, where the
  JavaScript sum is rounded (at \<open>2 ^ 53\<close> it is the height itself). The claim about the
  value of the cursor after a call, C3, is therefore stated for heights below \<open>2 ^ 53\<close>.
\<close>

definition update :: "chain \<Rightarrow> state \<Rightarrow> error option \<times> state" where
  "update ch s =
     (case getBlockNumber ch of
        Inl e \<Rightarrow> (Some e, s)
      | Inr currentBlockNumber \<Rightarrow>
          (case in_sequence (fetches ch currentBlockNumber) s of
             (Some e, s') \<Rightarrow> (Some e, s')
           | (None, s') \<Rightarrow>
               (let s'' = s'\<lparr>self := (self s')\<lparr>firstBlockToSearch := currentBlockNumber + 1\<rparr>\<rparr>
                in case getCurrentTime ch of
                     Inl e \<Rightarrow> (Some e, s'')
                   | Inr t \<Rightarrow> (None, s''\<lparr>self := (self s'')\<lparr>lastUpdateTimestamp := t\<rparr>\<rparr>))))"

section \<open>The run functions of the disputer and the liquidator\<close>

text \<open>
  What a run does that can be observed, in order: the records given to the logger, the
  approval transactions submitted, the calls of the bot's two operations (with the
  number of the iteration) and the delays.
\<close>

datatype action =
    LogInfo string
  | LogError string error
  | WaitForLogger
  | Approve string "string option" string nat
  | Call string nat
  | Delay nat

text \<open>
  The chain state a run reads and writes, the allowances by token, owner and spender,
  and the actions so far. The owner is \<^verbatim>\<open>accounts[0]\<close>, \<^verbatim>\<open>undefined\<close> when there is no
  account.
\<close>

type_synonym allowance_table = "string \<times> string option \<times> string \<Rightarrow> nat"

record world =
  allowances :: allowance_table
  trace :: "action list"

text \<open>
  What the collaborators of one run answer. Every awaited call may reject and every
  constructor may throw. \<open>MAX_UINT_VAL\<close> is the constant of \<^verbatim>\<open>common/Constants\<close>, and
  \<open>approve_call\<close> is what the token contract makes of an approval; both are parameters
  here. The operations of the bot are asked by iteration.
\<close>

record env =
  MAX_UINT_VAL :: nat
  getAccounts :: "error + string list"
  emp_at :: "string \<Rightarrow> error + string"
  createPriceFeed :: "string \<Rightarrow> error + string option"
  new_ExpiringMultiPartyClient :: "error option"
  new_GasEstimator :: "error option"
  new_Disputer :: "error option"
  new_Liquidator :: "error option"
  collateralCurrency :: "error + string"
  tokenCurrency :: "error + string"
  token_at :: "string \<Rightarrow> error + string"
  allowance_call :: "string \<Rightarrow> error option"
  approve_call ::
    "string \<Rightarrow> string option \<Rightarrow> string \<Rightarrow> nat \<Rightarrow> allowance_table
       \<Rightarrow> error + string \<times> allowance_table"
  queryAndDispute :: "nat \<Rightarrow> error option"
  queryAndLiquidate :: "nat \<Rightarrow> error option"
  queryAndWithdrawRewards :: "nat \<Rightarrow> error option"

type_synonym 'a io = "world \<Rightarrow> (error + 'a) \<times> world"

text \<open>Sequencing of awaited calls: the first rejection or throw ends the sequence.\<close>

definition ret :: "'a \<Rightarrow> 'a io" where
  "ret a w = (Inr a, w)"

definition throw :: "error \<Rightarrow> 'a io" where
  "throw e w = (Inl e, w)"

definition then_do :: "'a io \<Rightarrow> ('a \<Rightarrow> 'b io) \<Rightarrow> 'b io" where
  "then_do m f w = (case m w of (Inl e, w') \<Rightarrow> (Inl e, w') | (Inr a, w') \<Rightarrow> f a w')"

definition await :: "error + 'a \<Rightarrow> 'a io" where
  "await r w = (r, w)"

definition construct :: "error option \<Rightarrow> unit io" where
  "construct r = (case r of Some e \<Rightarrow> throw e | None \<Rightarrow> ret ())"

definition emit :: "action \<Rightarrow> unit io" where
  "emit a w = (Inr (), w\<lparr>trace := trace w @ [a]\<rparr>)"

definition account0 :: "string list \<Rightarrow> string option" where
  "account0 accounts = (case accounts of [] \<Rightarrow> None | a # _ \<Rightarrow> Some a)"

text \<open>\<^verbatim>\<open>token.allowance(owner, spender)\<close>.\<close>

definition allowance :: "env \<Rightarrow> string \<Rightarrow> string option \<Rightarrow> string \<Rightarrow> nat io" where
  "allowance env token owner spender w =
     (case allowance_call env token of
        Some e \<Rightarrow> (Inl e, w)
      | None \<Rightarrow> (Inr (allowances w (token, owner, spender)), w))"

text \<open>
  \<^verbatim>\<open>token.approve(spender, amount, { from: owner })\<close>: the
  transaction is submitted.
\<close>

definition approve :: "env \<Rightarrow> string \<Rightarrow> string option \<Rightarrow> string \<Rightarrow> nat \<Rightarrow> string io" where
  "approve env token owner spender amount w =
     (case approve_call env token owner spender amount (allowances w) of
        Inl e \<Rightarrow> (Inl e, w\<lparr>trace := trace w @ [Approve token owner spender amount]\<rparr>)
      | Inr (tx, table) \<Rightarrow>
          (Inr tx, w\<lparr>allowances := table,
                     trace := trace w @ [Approve token owner spender amount]\<rparr>))"

text \<open>
  \<^verbatim>\<open>if (toBN(currentAllowance).lt(toBN(MAX_UINT_VAL).div(toBN("2")))) { approve; Logger.info }\<close>
\<close>

definition approve_if_low ::
  "env \<Rightarrow> string \<Rightarrow> string option \<Rightarrow> string \<Rightarrow> nat \<Rightarrow> string \<Rightarrow> unit io" where
  "approve_if_low env token owner spender currentAllowance message =
     (if currentAllowance < MAX_UINT_VAL env div 2
      then then_do (approve env token owner spender (MAX_UINT_VAL env))
             (\<lambda>tx. emit (LogInfo message))
      else ret ())"

text \<open>
  The allowance maintenance of the disputer (lines 59 to 69 of its \<^verbatim>\<open>index.js\<close>): read
  the allowance, approve when it is low. The source has no function of this name; the
  statements stand in \<^verbatim>\<open>run\<close>.
\<close>

definition ensureAllowance ::
  "env \<Rightarrow> string \<Rightarrow> string option \<Rightarrow> string \<Rightarrow> string \<Rightarrow> unit io" where
  "ensureAllowance env token owner spender message =
     then_do (allowance env token owner spender)
       (\<lambda>currentAllowance. approve_if_low env token owner spender currentAllowance message)"

text \<open>
  The statements of the disputer's \<^verbatim>\<open>run\<close> before its loop.
\<close>

definition disputer_setup :: "env \<Rightarrow> string \<Rightarrow> string \<Rightarrow> unit io" where
  "disputer_setup env address priceFeedConfig =
     then_do (emit (LogInfo ''Disputer started'')) (\<lambda>_.
     then_do (await (getAccounts env)) (\<lambda>accounts.
     then_do (await (emp_at env address)) (\<lambda>emp.
     then_do (await (createPriceFeed env priceFeedConfig)) (\<lambda>priceFeed.
     then_do (if priceFeed = None then throw (Error ''Price feed config is invalid'')
              else ret ()) (\<lambda>_.
     then_do (construct (new_ExpiringMultiPartyClient env)) (\<lambda>_.
     then_do (construct (new_GasEstimator env)) (\<lambda>_.
     then_do (construct (new_Disputer env)) (\<lambda>_.
     then_do (await (collateralCurrency env)) (\<lambda>currency.
     then_do (await (token_at env currency)) (\<lambda>collateralToken.
     ensureAllowance env collateralToken (account0 accounts) emp
       ''Approved EMP to transfer unlimited collateral tokens''))))))))))"

text \<open>
  The statements of the liquidator's \<^verbatim>\<open>run\<close> before its loop: both allowances are
  read before either approval.
\<close>

definition liquidator_setup :: "env \<Rightarrow> string \<Rightarrow> string \<Rightarrow> unit io" where
  "liquidator_setup env address priceFeedConfig =
     then_do (emit (LogInfo ''Liquidator started'')) (\<lambda>_.
     then_do (await (getAccounts env)) (\<lambda>accounts.
     then_do (await (emp_at env address)) (\<lambda>emp.
     then_do (await (createPriceFeed env priceFeedConfig)) (\<lambda>priceFeed.
     then_do (if priceFeed = None then throw (Error ''Price feed config is invalid'')
              else ret ()) (\<lambda>_.
     then_do (construct (new_ExpiringMultiPartyClient env)) (\<lambda>_.
     then_do (construct (new_GasEstimator env)) (\<lambda>_.
     then_do (construct (new_Liquidator env)) (\<lambda>_.
     then_do (await (collateralCurrency env)) (\<lambda>currency.
     then_do (await (token_at env currency)) (\<lambda>collateralToken.
     then_do (await (tokenCurrency env)) (\<lambda>synthetic.
     then_do (await (token_at env synthetic)) (\<lambda>syntheticToken.
     then_do (allowance env collateralToken (account0 accounts) emp)
       (\<lambda>currentCollateralAllowance.
     then_do (allowance env syntheticToken (account0 accounts) emp)
       (\<lambda>currentSyntheticAllowance.
     then_do (approve_if_low env collateralToken (account0 accounts) emp
                currentCollateralAllowance
                ''Approved EMP to transfer unlimited collateral tokens'') (\<lambda>_.
     approve_if_low env syntheticToken (account0 accounts) emp currentSyntheticAllowance
       ''Approved EMP to transfer unlimited synthetic tokens'')))))))))))))))"

text \<open>
  \<^verbatim>\<open>while (true) { await act(); await queryAndWithdrawRewards(); await delay(...);
  if (!shouldPoll) break; }\<close>, the same in both files but for the first operation.
  The loop has no exit in continuous mode, so it runs on fuel: \<open>None\<close> is a loop that
  has not returned when the fuel is spent.
\<close>

fun poll ::
  "nat \<Rightarrow> string \<Rightarrow> (nat \<Rightarrow> error option) \<Rightarrow> (nat \<Rightarrow> error option) \<Rightarrow> bool \<Rightarrow> nat \<Rightarrow> nat
     \<Rightarrow> world \<Rightarrow> ((error + unit) \<times> world) option" where
  "poll 0 name act claim shouldPoll pollingDelay k w = None"
| "poll (Suc fuel) name act claim shouldPoll pollingDelay k w =
     (case act k of
        Some e \<Rightarrow> Some (Inl e, w\<lparr>trace := trace w @ [Call name k]\<rparr>)
      | None \<Rightarrow>
         (case claim k of
            Some e \<Rightarrow>
              Some (Inl e, w\<lparr>trace := trace w @
                                [Call name k, Call ''queryAndWithdrawRewards'' k]\<rparr>)
          | None \<Rightarrow>
              (let w' = w\<lparr>trace := trace w @
                             [Call name k, Call ''queryAndWithdrawRewards'' k,
                              Delay pollingDelay]\<rparr>
               in if \<not> shouldPoll then Some (Inr (), w')
                  else poll fuel name act claim shouldPoll pollingDelay (Suc k) w')))"

text \<open>
  \<^verbatim>\<open>try { setup; loop } catch (error) { Logger.error(...); await waitForLogger(Logger); }\<close>:
  one handler around the setup and the loop, which logs and lets \<^verbatim>\<open>run\<close> return.
\<close>

definition try_catch ::
  "string \<Rightarrow> ((error + unit) \<times> world) option \<Rightarrow> ((error + unit) \<times> world) option" where
  "try_catch message body =
     (case body of
        None \<Rightarrow> None
      | Some (Inl error, w) \<Rightarrow>
          Some (Inr (), w\<lparr>trace := trace w @ [LogError message error, WaitForLogger]\<rparr>)
      | Some (Inr u, w) \<Rightarrow> Some (Inr u, w))"

definition setup_then_poll ::
  "unit io \<Rightarrow> nat \<Rightarrow> string \<Rightarrow> (nat \<Rightarrow> error option) \<Rightarrow> (nat \<Rightarrow> error option) \<Rightarrow> bool \<Rightarrow> nat
     \<Rightarrow> world \<Rightarrow> ((error + unit) \<times> world) option" where
  "setup_then_poll prelude fuel name act claim shouldPoll pollingDelay w =
     (case prelude w of
        (Inl e, w') \<Rightarrow> Some (Inl e, w')
      | (Inr u, w') \<Rightarrow> poll fuel name act claim shouldPoll pollingDelay 0 w')"

definition disputer_run ::
  "nat \<Rightarrow> env \<Rightarrow> string \<Rightarrow> bool \<Rightarrow> nat \<Rightarrow> string \<Rightarrow> world
     \<Rightarrow> ((error + unit) \<times> world) option" where
  "disputer_run fuel env address shouldPoll pollingDelay priceFeedConfig w =
     try_catch ''Disputer error''
       (setup_then_poll (disputer_setup env address priceFeedConfig) fuel
          ''queryAndDispute'' (queryAndDispute env) (queryAndWithdrawRewards env)
          shouldPoll pollingDelay w)"

definition liquidator_run ::
  "nat \<Rightarrow> env \<Rightarrow> string \<Rightarrow> bool \<Rightarrow> nat \<Rightarrow> string \<Rightarrow> world
     \<Rightarrow> ((error + unit) \<times> world) option" where
  "liquidator_run fuel env address shouldPoll pollingDelay priceFeedConfig w =
     try_catch ''Liquidator polling error''
       (setup_then_poll (liquidator_setup env address priceFeedConfig) fuel
          ''queryAndLiquidate'' (queryAndLiquidate env) (queryAndWithdrawRewards env)
          shouldPoll pollingDelay w)"

section \<open>Sequences of calls on the event client\<close>

text \<open>
  The names of the twelve requests of \<^verbatim>\<open>update\<close>, in its order.
\<close>

definition event_names :: "string list" where
  "event_names =
     [''LiquidationCreated'', ''LiquidationDisputed'', ''DisputeSettled'', ''PositionCreated'',
      ''NewSponsor'', ''Deposit'', ''Withdrawal'', ''Redeem'', ''RegularFeesPaid'',
      ''FinalFeesPaid'', ''LiquidationWithdrawn'', ''SettleExpiredPosition'']"

text \<open>What a request was answered with, nothing when it was rejected.\<close>

definition fetched :: "chain \<Rightarrow> nat \<Rightarrow> nat \<Rightarrow> string \<Rightarrow> raw_event list" where
  "fetched ch fromBlock toBlock name =
     (case getPastEvents ch name fromBlock toBlock of Inr evs \<Rightarrow> evs | Inl e \<Rightarrow> [])"

text \<open>Whether a request was answered.\<close>

definition answered :: "chain \<Rightarrow> nat \<Rightarrow> nat \<Rightarrow> string \<Rightarrow> bool" where
  "answered ch fromBlock toBlock name =
     (case getPastEvents ch name fromBlock toBlock of Inr evs \<Rightarrow> True | Inl e \<Rightarrow> False)"

text \<open>
  A call on the client: \<^verbatim>\<open>update\<close> against what the chain answers
  at that time, \<^verbatim>\<open>clearState\<close>, or one of the accessors (by its
  number), which changes nothing.
\<close>

datatype call = Synchronize chain | Reset | GetEvents nat

text \<open>
  A list of calls performed in order; \<open>None\<close> when an
  \<^verbatim>\<open>update\<close> among them fails.
\<close>

fun perform :: "call list \<Rightarrow> state \<Rightarrow> state option" where
  "perform [] s = Some s"
| "perform (Synchronize ch # cs) s =
     (case update ch s of (None, s') \<Rightarrow> perform cs s' | (Some e, s') \<Rightarrow> None)"
| "perform (Reset # cs) s = perform cs (clearState s)"
| "perform (GetEvents k # cs) s = perform cs s"

text \<open>The height the chain reports.\<close>

definition height :: "chain \<Rightarrow> nat" where
  "height ch = (case getBlockNumber ch of Inr h \<Rightarrow> h | Inl e \<Rightarrow> 0)"

text \<open>
  The cursor before each of a list of calls of \<^verbatim>\<open>update\<close> and after
  the last.
\<close>

fun cursor_trace :: "chain list \<Rightarrow> state \<Rightarrow> nat list" where
  "cursor_trace [] s = [firstBlockToSearch (self s)]"
| "cursor_trace (ch # chs) s = firstBlockToSearch (self s) # cursor_trace chs (snd (update ch s))"

text \<open>
  The chain is truthful for a call of \<^verbatim>\<open>update\<close> in a state: its
  height is not below the last block scanned, and every request is answered with events of
  the requested range of blocks in ascending block order.
\<close>

definition truthful :: "chain \<Rightarrow> state \<Rightarrow> bool" where
  "truthful ch s =
     (firstBlockToSearch (self s) \<le> height ch + 1 \<and>
      list_all (\<lambda>name.
          sorted (map blockNumber (fetched ch (firstBlockToSearch (self s)) (height ch) name)) \<and>
          list_all (\<lambda>e. firstBlockToSearch (self s) \<le> blockNumber e \<and> blockNumber e \<le> height ch)
            (fetched ch (firstBlockToSearch (self s)) (height ch) name))
        event_names)"

text \<open>
  The chain is truthful at every \<^verbatim>\<open>update\<close> of a list of calls.
\<close>

fun truthful_calls :: "call list \<Rightarrow> state \<Rightarrow> bool" where
  "truthful_calls [] s = True"
| "truthful_calls (Synchronize ch # cs) s =
     (truthful ch s \<and> truthful_calls cs (snd (update ch s)))"
| "truthful_calls (Reset # cs) s = truthful_calls cs (clearState s)"
| "truthful_calls (GetEvents k # cs) s = truthful_calls cs s"

section \<open>Notions for the statements and their proofs\<close>

subsection \<open>What a call of update does to the arrays\<close>

text \<open>The arrays the twelve fields refer to, in the order of the constructor.\<close>

definition array_refs :: "client \<Rightarrow> ref list" where
  "array_refs c =
     [liquidationEvents c, disputeEvents c, disputeSettlementEvents c, newSponsorEvents c,
      depositEvents c, createEvents c, withdrawEvents c, redeemEvents c, regularFeeEvents c,
      finalFeeEvents c, liquidationWithdrawnEvents c, settleExpiredPositionEvents c]"

text \<open>
  The twelve fields refer to twelve different arrays that have been allocated: so it is
  for a new client, and every operation keeps it so.
\<close>

definition wf :: "state \<Rightarrow> bool" where
  "wf s = (distinct (array_refs (self s)) \<and> list_all (\<lambda>r. r < next_ref s) (array_refs (self s)))"

text \<open>
  Whether the filter of the NewSponsor loop finds a cached PositionCreated record with the
  block number of the event.
\<close>

definition has_match :: "cached_event list \<Rightarrow> raw_event \<Rightarrow> bool" where
  "has_match cs event = (\<exists>c \<in> set cs. blockNumber c = blockNumber event)"

text \<open>
  The record pushed for a matched NewSponsor event:
  \<^verbatim>\<open>createEvent[0]\<close> is the first cached record with its block
  number.
\<close>

definition correlate :: "cached_event list \<Rightarrow> raw_event \<Rightarrow> cached_event" where
  "correlate cs event =
     mk_newSponsor event (hd (filter (\<lambda>e. blockNumber e = blockNumber event) cs))"

text \<open>The properties copied from a PositionCreated event.\<close>

definition create_keys :: "string list" where
  "create_keys = [''sponsor'', ''collateralAmount'', ''tokenAmount'']"

text \<open>
  The cached PositionCreated array as the NewSponsor loop of a call finds it: what was
  cached before the call, then the records of the events this call fetched.
\<close>

definition creates_seen :: "chain \<Rightarrow> nat \<Rightarrow> state \<Rightarrow> cached_event list" where
  "creates_seen ch h s =
     store s (createEvents (self s)) @
     map (mk_record create_keys) (fetched ch (firstBlockToSearch (self s)) h ''PositionCreated'')"

text \<open>
  What the NewSponsor loop pushes: the records of the fetched events before the first one
  without a match.
\<close>

definition newSponsor_appended :: "chain \<Rightarrow> nat \<Rightarrow> state \<Rightarrow> cached_event list" where
  "newSponsor_appended ch h s =
     map (correlate (creates_seen ch h s))
       (takeWhile (has_match (creates_seen ch h s))
          (fetched ch (firstBlockToSearch (self s)) h ''NewSponsor''))"

text \<open>
  The eleven kinds other than NewSponsor in the order \<^verbatim>\<open>update\<close>
  fetches them: event name, field and copied properties. That this table is what
  \<open>fetches\<close> lists is \<open>fetches_eq\<close> below.
\<close>

definition plain_kinds :: "(string \<times> (client \<Rightarrow> ref) \<times> string list) list" where
  "plain_kinds =
     [(''LiquidationCreated'', liquidationEvents,
        [''sponsor'', ''liquidator'', ''liquidationId'', ''tokensOutstanding'',
         ''lockedCollateral'', ''liquidatedCollateral'']),
      (''LiquidationDisputed'', disputeEvents,
        [''sponsor'', ''liquidator'', ''disputer'', ''liquidationId'', ''disputeBondAmount'']),
      (''DisputeSettled'', disputeSettlementEvents,
        [''caller'', ''sponsor'', ''liquidator'', ''disputer'', ''liquidationId'',
         ''disputeSucceeded'']),
      (''PositionCreated'', createEvents, [''sponsor'', ''collateralAmount'', ''tokenAmount'']),
      (''Deposit'', depositEvents, [''sponsor'', ''collateralAmount'']),
      (''Withdrawal'', withdrawEvents, [''sponsor'', ''collateralAmount'']),
      (''Redeem'', redeemEvents, [''sponsor'', ''collateralAmount'', ''tokenAmount'']),
      (''RegularFeesPaid'', regularFeeEvents, [''regularFee'', ''lateFee'']),
      (''FinalFeesPaid'', finalFeeEvents, [''amount'']),
      (''LiquidationWithdrawn'', liquidationWithdrawnEvents,
        [''caller'', ''withdrawalAmount'', ''liquidationStatus'']),
      (''SettleExpiredPosition'', settleExpiredPositionEvents,
        [''caller'', ''collateralReturned'', ''tokensBurned''])]"

text \<open>The arrays of the fields of a list of rows.\<close>

definition plain_refs :: "client \<Rightarrow> (string \<times> (client \<Rightarrow> ref) \<times> string list) list \<Rightarrow> ref list" where
  "plain_refs cl ks = map (\<lambda>k. fst (snd k) cl) ks"

text \<open>The fetch of one row of the table.\<close>

definition plain ::
  "chain \<Rightarrow> nat \<Rightarrow> string \<times> (client \<Rightarrow> ref) \<times> string list \<Rightarrow> state \<Rightarrow> error option \<times> state" where
  "plain ch h k = (case k of (name, field, keys) \<Rightarrow> fetch_and_push ch h name field keys)"

text \<open>The records the fetch of one row pushes onto the array at an address.\<close>

definition contribution ::
  "chain \<Rightarrow> nat \<Rightarrow> nat \<Rightarrow> client \<Rightarrow> string \<times> (client \<Rightarrow> ref) \<times> string list \<Rightarrow> ref
     \<Rightarrow> cached_event list" where
  "contribution ch c h cl k q =
     (case k of (name, field, keys) \<Rightarrow>
        if q = field cl then map (mk_record keys) (fetched ch c h name) else [])"

text \<open>The same for a list of rows, one after the other.\<close>

definition contributions ::
  "chain \<Rightarrow> nat \<Rightarrow> nat \<Rightarrow> client \<Rightarrow> (string \<times> (client \<Rightarrow> ref) \<times> string list) list \<Rightarrow> ref
     \<Rightarrow> cached_event list" where
  "contributions ch c h cl ks q = concat (map (\<lambda>k. contribution ch c h cl k q) ks)"

text \<open>All the records a successful call pushes onto the array at an address.\<close>

definition appended :: "chain \<Rightarrow> nat \<Rightarrow> state \<Rightarrow> ref \<Rightarrow> cached_event list" where
  "appended ch h s q =
     contributions ch (firstBlockToSearch (self s)) h (self s) (take 4 plain_kinds) q @
     (if q = newSponsorEvents (self s) then newSponsor_appended ch h s else []) @
     contributions ch (firstBlockToSearch (self s)) h (self s) (drop 4 plain_kinds) q"

text \<open>
  A request of a call that found the state \<open>s\<close> and the height
  \<open>h\<close>.
\<close>

definition request_of :: "state \<Rightarrow> nat \<Rightarrow> string \<Rightarrow> string \<times> nat \<times> nat" where
  "request_of s h name = (name, firstBlockToSearch (self s), h)"

text \<open>
  The requests of a list of calls, each issuing its twelve from its cursor to its height.
\<close>

definition scans :: "nat list \<Rightarrow> chain list \<Rightarrow> (string \<times> nat \<times> nat) list" where
  "scans cursors chs =
     concat (map (\<lambda>(c, ch). map (\<lambda>name. (name, c, height ch)) event_names) (zip cursors chs))"

text \<open>
  The events of one kind the chain answers to the requests of a list of calls, one call
  after the other.
\<close>

definition scanned :: "string \<Rightarrow> nat list \<Rightarrow> chain list \<Rightarrow> raw_event list" where
  "scanned name cursors chs =
     concat (map (\<lambda>(c, ch). fetched ch c (height ch) name) (zip cursors chs))"

text \<open>
  From one state to another the given requests were issued and the given records pushed,
  array by array, and nothing else changed.
\<close>

definition delta ::
  "state \<Rightarrow> state \<Rightarrow> (ref \<Rightarrow> cached_event list) \<Rightarrow> (string \<times> nat \<times> nat) list \<Rightarrow> bool" where
  "delta s s' A reqs \<longleftrightarrow>
     self s' = self s \<and> next_ref s' = next_ref s \<and> requests s' = requests s @ reqs \<and>
     (\<forall>q. store s' q = store s q @ A q)"

text \<open>
  From one state to another the fields are the same and the arrays and the requests were
  only extended, the requests with the given range.
\<close>

definition grows :: "state \<Rightarrow> state \<Rightarrow> nat \<Rightarrow> nat \<Rightarrow> bool" where
  "grows s s' c h \<longleftrightarrow>
     self s' = self s \<and> next_ref s' = next_ref s \<and>
     (\<forall>q. \<exists>ys. store s' q = store s q @ ys) \<and>
     (\<exists>names. requests s' = requests s @ map (\<lambda>n. (n, c, h)) names)"

text \<open>Records in ascending block order, all below a block.\<close>

definition ordered_below :: "nat \<Rightarrow> cached_event list \<Rightarrow> bool" where
  "ordered_below c xs =
     (sorted (map blockNumber xs) \<and> list_all (\<lambda>e. blockNumber e < c) xs)"

text \<open>Every array of the client is in ascending block order and below the cursor.\<close>

definition cache_inv :: "state \<Rightarrow> bool" where
  "cache_inv s =
     (wf s \<and> list_all (\<lambda>r. ordered_below (firstBlockToSearch (self s)) (store s r))
               (array_refs (self s)))"

subsection \<open>What a run leaves in its trace\<close>

text \<open>The approvals among the actions of a run.\<close>

definition is_approve :: "action \<Rightarrow> bool" where
  "is_approve a = (case a of Approve token owner spender amount \<Rightarrow> True | _ \<Rightarrow> False)"

definition approvals :: "action list \<Rightarrow> action list" where
  "approvals tr = filter is_approve tr"

text \<open>The actions of the loop: the calls of the bot's operations and the delays.\<close>

definition is_loop_action :: "action \<Rightarrow> bool" where
  "is_loop_action a = (case a of Call name k \<Rightarrow> True | Delay d \<Rightarrow> True | _ \<Rightarrow> False)"

definition loop_actions :: "action list \<Rightarrow> action list" where
  "loop_actions tr = filter is_loop_action tr"

text \<open>A step that adds no action of the loop.\<close>

definition quiet :: "'a io \<Rightarrow> bool" where
  "quiet m = (\<forall>w. loop_actions (trace (snd (m w))) = loop_actions (trace w))"

text \<open>
  The error an iteration ends with, if any: that of the first operation, else that of the
  second.
\<close>

definition first_error :: "(nat \<Rightarrow> error option) \<Rightarrow> (nat \<Rightarrow> error option) \<Rightarrow> nat \<Rightarrow> error option" where
  "first_error act claim k = (case act k of Some e \<Rightarrow> Some e | None \<Rightarrow> claim k)"

text \<open>The actions of an iteration that runs to its end.\<close>

definition iteration :: "string \<Rightarrow> nat \<Rightarrow> nat \<Rightarrow> action list" where
  "iteration name pollingDelay k =
     [Call name k, Call ''queryAndWithdrawRewards'' k, Delay pollingDelay]"

text \<open>The actions of an iteration up to the operation that throws.\<close>

definition failing_iteration :: "string \<Rightarrow> (nat \<Rightarrow> error option) \<Rightarrow> nat \<Rightarrow> action list" where
  "failing_iteration name act k =
     (case act k of
        Some e \<Rightarrow> [Call name k]
      | None \<Rightarrow> [Call name k, Call ''queryAndWithdrawRewards'' k])"

text \<open>What a run returned and the actions it left.\<close>

definition outcome :: "((error + unit) \<times> world) option \<Rightarrow> ((error + unit) \<times> action list) option" where
  "outcome r = map_option (\<lambda>(result, w). (result, trace w)) r"

section \<open>Example chains and environments\<close>

text \<open>An event as the chain returns it.\<close>

definition raw :: "string \<Rightarrow> nat \<Rightarrow> (string \<times> string) list \<Rightarrow> raw_event" where
  "raw tx b vs = \<lparr>transactionHash = tx, blockNumber = b, returnValues = vs\<rparr>"

text \<open>
  A chain of a given height that answers every request from a table of events by kind,
  with the events of the requested range of blocks.
\<close>

definition answers :: "nat \<Rightarrow> (string \<times> raw_event list) list \<Rightarrow> chain" where
  "answers h table =
     \<lparr>getBlockNumber = Inr h,
      getPastEvents = (\<lambda>name fromBlock toBlock.
         Inr (filter (\<lambda>e. fromBlock \<le> blockNumber e \<and> blockNumber e \<le> toBlock)
                (case map_of table name of Some evs \<Rightarrow> evs | None \<Rightarrow> []))),
      getCurrentTime = Inr (1000 + h)\<rparr>"

text \<open>The same chain with the requests for one kind rejected.\<close>

definition rejecting :: "string \<Rightarrow> chain \<Rightarrow> chain" where
  "rejecting name ch =
     ch\<lparr>getPastEvents := (\<lambda>n fromBlock toBlock.
           if n = name then Inl (Error ''timeout'') else getPastEvents ch n fromBlock toBlock)\<rparr>"

text \<open>Chains and the states reached on them, for the examples below.\<close>

definition chain_a :: chain where
  "chain_a = answers 10
     [(''LiquidationCreated'',
         [raw ''0xa1'' 3 [(''sponsor'', ''0x51'')], raw ''0xa2'' 6 [(''sponsor'', ''0x52'')]]),
      (''PositionCreated'',
         [raw ''0xc1'' 5 [(''sponsor'', ''0x51''), (''collateralAmount'', ''100''),
                          (''tokenAmount'', ''50'')]]),
      (''NewSponsor'', [raw ''0xc1'' 5 [(''sponsor'', ''0x51'')]])]"

definition chain_b :: chain where
  "chain_b = answers 20
     [(''LiquidationCreated'',
         [raw ''0xa1'' 3 [(''sponsor'', ''0x51'')], raw ''0xa2'' 6 [(''sponsor'', ''0x52'')],
          raw ''0xa3'' 15 [(''sponsor'', ''0x51'')]]),
      (''PositionCreated'',
         [raw ''0xc1'' 5 [(''sponsor'', ''0x51''), (''collateralAmount'', ''100''),
                          (''tokenAmount'', ''50'')]]),
      (''NewSponsor'', [raw ''0xc1'' 5 [(''sponsor'', ''0x51'')]])]"

definition chain_c :: chain where
  "chain_c = answers 100
     [(''PositionCreated'',
         [raw ''0xc1'' 80 [(''sponsor'', ''0x51''), (''collateralAmount'', ''100''),
                           (''tokenAmount'', ''50'')]]),
      (''NewSponsor'', [raw ''0xc2'' 81 [(''sponsor'', ''0x52'')]])]"

definition chain_d :: chain where
  "chain_d = answers 10 [(''NewSponsor'', [raw ''0xc1'' 5 [(''sponsor'', ''0x51'')]])]"

definition chain_e :: chain where
  "chain_e = answers 20
     [(''PositionCreated'',
         [raw ''0xc1'' 5 [(''sponsor'', ''0x51''), (''collateralAmount'', ''100''),
                          (''tokenAmount'', ''50'')],
          raw ''0xc3'' 15 [(''sponsor'', ''0x53''), (''collateralAmount'', ''300''),
                           (''tokenAmount'', ''150'')]]),
      (''NewSponsor'',
         [raw ''0xc1'' 5 [(''sponsor'', ''0x51'')], raw ''0xc3'' 15 [(''sponsor'', ''0x53'')]])]"


definition state_a :: state where
  "state_a = snd (update chain_a (constructor 0))"

definition state_r :: state where
  "state_r = snd (update (rejecting ''NewSponsor'' chain_a) (constructor 0))"


definition example_calls :: "call list" where
  "example_calls = [Synchronize chain_a, GetEvents 1, Synchronize chain_e]"

text \<open>
  Environments in which nothing fails, the price feed cannot be made, the bot cannot be
  constructed, and the third or the first iteration throws; and a world without
  allowances.
\<close>

definition env_ok :: env where
  "env_ok =
     \<lparr>MAX_UINT_VAL = 2 ^ 256 - 1,
      getAccounts = Inr [''0xb07''],
      emp_at = (\<lambda>address. Inr address),
      createPriceFeed = (\<lambda>config. Inr (Some config)),
      new_ExpiringMultiPartyClient = None,
      new_GasEstimator = None,
      new_Disputer = None,
      new_Liquidator = None,
      collateralCurrency = Inr ''0xc011'',
      tokenCurrency = Inr ''0x5177'',
      token_at = (\<lambda>address. Inr address),
      allowance_call = (\<lambda>token. None),
      approve_call = (\<lambda>token owner spender amount table.
         Inr (''0x7a'', table((token, owner, spender) := amount))),
      queryAndDispute = (\<lambda>k. None),
      queryAndLiquidate = (\<lambda>k. None),
      queryAndWithdrawRewards = (\<lambda>k. None)\<rparr>"

definition world0 :: world where
  "world0 = \<lparr>allowances = (\<lambda>key. 0), trace = []\<rparr>"

definition env_no_feed :: env where
  "env_no_feed = env_ok\<lparr>createPriceFeed := (\<lambda>config. Inr None)\<rparr>"

definition env_no_bot :: env where
  "env_no_bot = env_ok\<lparr>new_Disputer := Some (Error ''bad disputer config''),
                        new_Liquidator := Some (Error ''bad liquidator config'')\<rparr>"

definition env_third_fails :: env where
  "env_third_fails =
     env_ok\<lparr>queryAndDispute := (\<lambda>k. if k = 2 then Some (Error ''boom'') else None),
            queryAndLiquidate := (\<lambda>k. if k = 2 then Some (Error ''boom'') else None)\<rparr>"

definition env_first_fails :: env where
  "env_first_fails =
     env_ok\<lparr>queryAndDispute := (\<lambda>k. if k = 0 then Some (Error ''boom'') else None)\<rparr>"

section \<open>Facts about update\<close>

lemma push_all_Cons:
  "push_all field mk (a # evs) s = push_all field mk evs (push (field (self s)) (mk a) s)"
  by (simp add: push_all_def)

lemma push_all_self [simp]: "self (push_all field mk evs s) = self s"
  by (induction evs arbitrary: s) (simp_all add: push_all_Cons push_def, simp add: push_all_def)

lemma push_all_next_ref [simp]: "next_ref (push_all field mk evs s) = next_ref s"
  by (induction evs arbitrary: s) (simp_all add: push_all_Cons push_def, simp add: push_all_def)

lemma push_all_requests [simp]: "requests (push_all field mk evs s) = requests s"
  by (induction evs arbitrary: s) (simp_all add: push_all_Cons push_def, simp add: push_all_def)

lemma push_all_store [simp]:
  "store (push_all field mk evs s) r =
     (if r = field (self s) then store s r @ map mk evs else store s r)"
proof (induction evs arbitrary: s)
  case Nil
  show ?case by (simp add: push_all_def)
next
  case (Cons a evs)
  show ?case by (simp add: push_all_Cons Cons) (simp add: push_def)
qed

lemma filter_Nil_has_match:
  "filter (\<lambda>e. blockNumber e = blockNumber event) cs = [] \<longleftrightarrow> \<not> has_match cs event"
  by (auto simp: has_match_def filter_empty_conv)

lemma newSponsor_loop_self [simp]: "self (snd (newSponsor_loop evs s)) = self s"
  by (induction evs arbitrary: s) (auto simp: push_def split: list.splits)

lemma newSponsor_loop_next_ref [simp]: "next_ref (snd (newSponsor_loop evs s)) = next_ref s"
  by (induction evs arbitrary: s) (auto simp: push_def split: list.splits)

lemma newSponsor_loop_requests [simp]: "requests (snd (newSponsor_loop evs s)) = requests s"
  by (induction evs arbitrary: s) (auto simp: push_def split: list.splits)

lemma newSponsor_loop_store:
  assumes "createEvents (self s) \<noteq> newSponsorEvents (self s)"
  shows "store (snd (newSponsor_loop evs s)) r =
     (if r = newSponsorEvents (self s)
      then store s r @ map (correlate (store s (createEvents (self s))))
             (takeWhile (has_match (store s (createEvents (self s)))) evs)
      else store s r)"
  using assms
proof (induction evs arbitrary: s)
  case Nil
  then show ?case by simp
next
  case (Cons a evs)
  let ?cs = "store s (createEvents (self s))"
  show ?case
  proof (cases "filter (\<lambda>e. blockNumber e = blockNumber a) ?cs")
    case Nil
    then show ?thesis using filter_Nil_has_match[of a ?cs] by simp
  next
    case (Cons c cs')
    let ?s1 = "push (newSponsorEvents (self s)) (mk_newSponsor a c) s"
    have s1: "createEvents (self ?s1) \<noteq> newSponsorEvents (self ?s1)"
      using Cons.prems by (simp add: push_def)
    have st: "store ?s1 (createEvents (self ?s1)) = ?cs"
      using Cons.prems by (simp add: push_def)
    have nl: "newSponsor_loop (a # evs) s = newSponsor_loop evs ?s1"
      using Cons by simp
    have hm: "has_match ?cs a" using Cons filter_Nil_has_match[of a ?cs] by simp
    show ?thesis
      unfolding nl Cons.IH[OF s1] st
      using Cons hm by (auto simp: correlate_def push_def)
  qed
qed

lemma newSponsor_loop_fst:
  assumes "createEvents (self s) \<noteq> newSponsorEvents (self s)"
  shows "fst (newSponsor_loop evs s) =
     (if list_all (has_match (store s (createEvents (self s)))) evs then None
      else Some type_error)"
  using assms
proof (induction evs arbitrary: s)
  case Nil
  then show ?case by simp
next
  case (Cons a evs)
  let ?cs = "store s (createEvents (self s))"
  show ?case
  proof (cases "filter (\<lambda>e. blockNumber e = blockNumber a) ?cs")
    case Nil
    then show ?thesis using filter_Nil_has_match[of a ?cs] by simp
  next
    case (Cons c cs')
    let ?s1 = "push (newSponsorEvents (self s)) (mk_newSponsor a c) s"
    have s1: "createEvents (self ?s1) \<noteq> newSponsorEvents (self ?s1)"
      using Cons.prems by (simp add: push_def)
    have st: "store ?s1 (createEvents (self ?s1)) = ?cs"
      using Cons.prems by (simp add: push_def)
    have nl: "newSponsor_loop (a # evs) s = newSponsor_loop evs ?s1"
      using Cons by simp
    have hm: "has_match ?cs a" using Cons filter_Nil_has_match[of a ?cs] by simp
    show ?thesis
      unfolding nl Cons.IH[OF s1] st
      using hm by simp
  qed
qed

lemma delta_trans:
  "delta s s1 A q1 \<Longrightarrow> delta s1 s2 B q2 \<Longrightarrow> delta s s2 (\<lambda>q. A q @ B q) (q1 @ q2)"
  by (simp add: delta_def)

lemma in_sequence_append:
  "in_sequence (fs @ gs) s =
     (case in_sequence fs s of (None, s1) \<Rightarrow> in_sequence gs s1 | (Some e, s1) \<Rightarrow> (Some e, s1))"
  by (induction fs arbitrary: s) (auto split: prod.splits option.splits)

lemma fetches_eq:
  "fetches ch h =
     map (plain ch h) (take 4 plain_kinds) @ fetch_newSponsor ch h #
     map (plain ch h) (drop 4 plain_kinds)"
  by (simp add: fetches_def plain_kinds_def plain_def)

text \<open>One plain fetch, both outcomes.\<close>

lemma plain_answered:
  assumes "answered ch (firstBlockToSearch (self s)) h (fst k)"
  shows "fst (plain ch h k s) = None"
    and "delta s (snd (plain ch h k s))
           (contribution ch (firstBlockToSearch (self s)) h (self s) k)
           [(fst k, firstBlockToSearch (self s), h)]"
  using assms
  by (auto simp: plain_def fetch_and_push_def fetch_def answered_def fetched_def delta_def
      contribution_def split: sum.splits prod.splits)

lemma plain_rejected:
  assumes "\<not> answered ch (firstBlockToSearch (self s)) h (fst k)"
  shows "fst (plain ch h k s) \<noteq> None"
    and "delta s (snd (plain ch h k s)) (\<lambda>q. []) [(fst k, firstBlockToSearch (self s), h)]"
  using assms
  by (auto simp: plain_def fetch_and_push_def fetch_def answered_def fetched_def delta_def
      split: sum.splits prod.splits)

lemma plains_answered:
  assumes "list_all (\<lambda>k. answered ch (firstBlockToSearch (self s)) h (fst k)) ks"
  shows "fst (in_sequence (map (plain ch h) ks) s) = None \<and>
         delta s (snd (in_sequence (map (plain ch h) ks) s))
           (contributions ch (firstBlockToSearch (self s)) h (self s) ks)
           (map (\<lambda>k. (fst k, firstBlockToSearch (self s), h)) ks)"
  using assms
proof (induction ks arbitrary: s)
  case Nil
  show ?case by (simp add: delta_def contributions_def)
next
  case (Cons k ks)
  let ?c = "firstBlockToSearch (self s)"
  obtain r s1 where p: "plain ch h k s = (r, s1)" by (cases "plain ch h k s")
  from Cons.prems have a: "answered ch ?c h (fst k)" by simp
  from plain_answered[OF a] p have r: "r = None"
    and d1: "delta s s1 (contribution ch ?c h (self s) k) [(fst k, ?c, h)]" by simp_all
  from d1 have same: "self s1 = self s" by (simp add: delta_def)
  from Cons.prems have "list_all (\<lambda>k. answered ch (firstBlockToSearch (self s1)) h (fst k)) ks"
    by (simp add: same)
  from Cons.IH[OF this]
  have f2: "fst (in_sequence (map (plain ch h) ks) s1) = None"
    and d2: "delta s1 (snd (in_sequence (map (plain ch h) ks) s1))
               (contributions ch ?c h (self s) ks) (map (\<lambda>k. (fst k, ?c, h)) ks)"
    by (simp_all add: same)
  have step: "in_sequence (map (plain ch h) (k # ks)) s = in_sequence (map (plain ch h) ks) s1"
    by (simp add: p r)
  show ?case
    unfolding step using f2 delta_trans[OF d1 d2]
    by (simp add: contributions_def)
qed

lemma grows_refl: "grows s s c h"
  unfolding grows_def by (auto intro: exI[of _ "[]"])

lemma grows_trans:
  assumes "grows s s1 c h" "grows s1 s2 c h"
  shows "grows s s2 c h"
proof -
  from assms obtain n1 n2 where
    "requests s1 = requests s @ map (\<lambda>n. (n, c, h)) n1"
    "requests s2 = requests s1 @ map (\<lambda>n. (n, c, h)) n2"
    by (auto simp: grows_def)
  then have "requests s2 = requests s @ map (\<lambda>n. (n, c, h)) (n1 @ n2)" by simp
  then have r: "\<exists>names. requests s2 = requests s @ map (\<lambda>n. (n, c, h)) names" by blast
  have st: "\<exists>ys. store s2 q = store s q @ ys" for q
  proof -
    from assms obtain y1 y2 where "store s1 q = store s q @ y1" "store s2 q = store s1 q @ y2"
      unfolding grows_def by metis
    then have "store s2 q = store s q @ (y1 @ y2)" by simp
    then show ?thesis by blast
  qed
  from assms r st show ?thesis by (simp add: grows_def)
qed

lemma newSponsor_loop_prefix:
  "\<exists>ys. store (snd (newSponsor_loop evs s)) q = store s q @ ys"
proof (induction evs arbitrary: s)
  case Nil
  show ?case by simp
next
  case (Cons a evs)
  show ?case
  proof (cases "filter (\<lambda>e. blockNumber e = blockNumber a) (store s (createEvents (self s)))")
    case Nil
    then show ?thesis by simp
  next
    case (Cons c cs')
    let ?s1 = "push (newSponsorEvents (self s)) (mk_newSponsor a c) s"
    from Cons.IH[of ?s1] obtain ys where
      ys: "store (snd (newSponsor_loop evs ?s1)) q = store ?s1 q @ ys" by blast
    have "\<exists>zs. store ?s1 q = store s q @ zs" by (simp add: push_def)
    then obtain zs where "store ?s1 q = store s q @ zs" by blast
    with ys have "store (snd (newSponsor_loop evs ?s1)) q = store s q @ (zs @ ys)" by simp
    then show ?thesis using Cons by auto
  qed
qed

lemma fetch_and_push_grows:
  "grows s (snd (fetch_and_push ch h name field keys s)) (firstBlockToSearch (self s)) h"
  unfolding grows_def
  by (auto simp: fetch_and_push_def fetch_def split: sum.splits intro: exI[of _ "[name]"])

lemma fetch_newSponsor_grows:
  "grows s (snd (fetch_newSponsor ch h s)) (firstBlockToSearch (self s)) h"
proof (cases "getPastEvents ch ''NewSponsor'' (firstBlockToSearch (self s)) h")
  case (Inl e)
  then show ?thesis
    unfolding grows_def
    by (auto simp: fetch_newSponsor_def fetch_def intro: exI[of _ "[''NewSponsor'']"])
next
  case (Inr evs)
  let ?s0 = "s\<lparr>requests := requests s @ [(''NewSponsor'', firstBlockToSearch (self s), h)]\<rparr>"
  have e: "fetch_newSponsor ch h s = newSponsor_loop evs ?s0"
    using Inr by (simp add: fetch_newSponsor_def fetch_def)
  have "\<exists>ys. store (snd (newSponsor_loop evs ?s0)) q = store s q @ ys" for q
    using newSponsor_loop_prefix[of evs ?s0 q] by simp
  then show ?thesis
    unfolding grows_def e
    by (auto intro: exI[of _ "[''NewSponsor'']"])
qed

lemma in_sequence_grows:
  assumes "\<And>f s. f \<in> set fs \<Longrightarrow> grows s (snd (f s)) (firstBlockToSearch (self s)) h"
  shows "grows s (snd (in_sequence fs s)) (firstBlockToSearch (self s)) h"
  using assms
proof (induction fs arbitrary: s)
  case Nil
  show ?case by (simp add: grows_refl)
next
  case (Cons f fs)
  obtain r s1 where p: "f s = (r, s1)" by (cases "f s")
  have g1: "grows s s1 (firstBlockToSearch (self s)) h" using Cons.prems[of f s] p by simp
  then have same: "self s1 = self s" by (simp add: grows_def)
  show ?case
  proof (cases r)
    case None
    have "grows s1 (snd (in_sequence fs s1)) (firstBlockToSearch (self s1)) h"
      using Cons.IH Cons.prems by simp
    with g1 same show ?thesis using p None by (auto intro: grows_trans)
  next
    case (Some e)
    with g1 p show ?thesis by simp
  qed
qed

lemma fetches_grows:
  "grows s (snd (in_sequence (fetches ch h) s)) (firstBlockToSearch (self s)) h"
proof (rule in_sequence_grows)
  fix f s assume "f \<in> set (fetches ch h)"
  then show "grows s (snd (f s)) (firstBlockToSearch (self s)) h"
    unfolding fetches_def using fetch_and_push_grows fetch_newSponsor_grows by auto
qed

lemma fetch_newSponsor_answered:
  assumes ne: "createEvents (self s) \<noteq> newSponsorEvents (self s)"
    and a: "answered ch (firstBlockToSearch (self s)) h ''NewSponsor''"
  shows "fst (fetch_newSponsor ch h s) =
           (if list_all (has_match (store s (createEvents (self s))))
                 (fetched ch (firstBlockToSearch (self s)) h ''NewSponsor'')
            then None else Some type_error)"
    and "delta s (snd (fetch_newSponsor ch h s))
           (\<lambda>q. if q = newSponsorEvents (self s)
                then map (correlate (store s (createEvents (self s))))
                       (takeWhile (has_match (store s (createEvents (self s))))
                          (fetched ch (firstBlockToSearch (self s)) h ''NewSponsor''))
                else [])
           [(''NewSponsor'', firstBlockToSearch (self s), h)]"
proof -
  let ?c = "firstBlockToSearch (self s)"
  let ?s0 = "s\<lparr>requests := requests s @ [(''NewSponsor'', ?c, h)]\<rparr>"
  let ?evs = "fetched ch ?c h ''NewSponsor''"
  have e: "fetch_newSponsor ch h s = newSponsor_loop ?evs ?s0"
    using a by (simp add: fetch_newSponsor_def fetch_def answered_def fetched_def split: sum.splits)
  have ne0: "createEvents (self ?s0) \<noteq> newSponsorEvents (self ?s0)" using ne by simp
  show "fst (fetch_newSponsor ch h s) =
           (if list_all (has_match (store s (createEvents (self s)))) ?evs
            then None else Some type_error)"
    unfolding e using newSponsor_loop_fst[OF ne0, of ?evs] by simp
  show "delta s (snd (fetch_newSponsor ch h s))
           (\<lambda>q. if q = newSponsorEvents (self s)
                then map (correlate (store s (createEvents (self s))))
                       (takeWhile (has_match (store s (createEvents (self s)))) ?evs)
                else [])
           [(''NewSponsor'', ?c, h)]"
    unfolding e delta_def using newSponsor_loop_store[OF ne0, of ?evs] by simp
qed

lemma fetch_newSponsor_rejected:
  assumes "\<not> answered ch (firstBlockToSearch (self s)) h ''NewSponsor''"
  shows "fst (fetch_newSponsor ch h s) \<noteq> None"
  using assms
  by (auto simp: fetch_newSponsor_def fetch_def answered_def split: sum.splits)

lemma plains_None_iff:
  "fst (in_sequence (map (plain ch h) ks) s) = None \<longleftrightarrow>
     list_all (\<lambda>k. answered ch (firstBlockToSearch (self s)) h (fst k)) ks"
proof (induction ks arbitrary: s)
  case Nil
  show ?case by simp
next
  case (Cons k ks)
  let ?c = "firstBlockToSearch (self s)"
  obtain r s1 where p: "plain ch h k s = (r, s1)" by (cases "plain ch h k s")
  show ?case
  proof (cases "answered ch ?c h (fst k)")
    case True
    from plain_answered[OF True] p have r: "r = None"
      and d1: "delta s s1 (contribution ch ?c h (self s) k) [(fst k, ?c, h)]" by simp_all
    from d1 have same: "self s1 = self s" by (simp add: delta_def)
    show ?thesis using Cons.IH[of s1] True by (simp add: p r same)
  next
    case False
    from plain_rejected(1)[OF False] p have "r \<noteq> None" by simp
    then show ?thesis using False p by auto
  qed
qed

lemma first4_creates:
  assumes "distinct (array_refs cl)"
  shows "contributions ch c h cl (take 4 plain_kinds) (createEvents cl) =
           map (mk_record create_keys) (fetched ch c h ''PositionCreated'')"
    and "contributions ch c h cl (take 4 plain_kinds) (newSponsorEvents cl) = []"
    and "contributions ch c h cl (drop 4 plain_kinds) (newSponsorEvents cl) = []"
  using assms
  by (auto simp: contributions_def contribution_def plain_kinds_def array_refs_def create_keys_def)

lemma in_sequence_append_None:
  "fst (in_sequence fs s) = None \<Longrightarrow>
   in_sequence (fs @ gs) s = in_sequence gs (snd (in_sequence fs s))"
  by (cases "in_sequence fs s") (auto simp: in_sequence_append)

lemma in_sequence_append_Some:
  "fst (in_sequence fs s) \<noteq> None \<Longrightarrow> in_sequence (fs @ gs) s = in_sequence fs s"
  by (cases "in_sequence fs s") (auto simp: in_sequence_append)

lemma in_sequence_Cons_fst_None:
  "fst (f s) = None \<Longrightarrow> in_sequence (f # fs) s = in_sequence fs (snd (f s))"
  by (cases "f s") auto

lemma in_sequence_Cons_fst_Some:
  "fst (f s) \<noteq> None \<Longrightarrow> in_sequence (f # fs) s = f s"
  by (cases "f s") auto

lemma names_take4: "map fst (take 4 plain_kinds) = take 4 event_names"
  by (simp add: plain_kinds_def event_names_def)

lemma names_drop4: "map fst (drop 4 plain_kinds) = drop 5 event_names"
  by (simp add: plain_kinds_def event_names_def)

lemma event_names_split:
  "event_names = take 4 event_names @ ''NewSponsor'' # drop 5 event_names"
  by (simp add: event_names_def)

lemma take5_event_names: "take 5 event_names = take 4 event_names @ [''NewSponsor'']"
  by (simp add: event_names_def)

lemma list_all_names:
  "list_all (\<lambda>k. P (fst k)) ks = list_all P (map fst ks)"
  by (simp add: list_all_iff)

text \<open>The state after the first four fetches, when all four were answered.\<close>

lemma first4_state:
  assumes wf: "wf s"
    and a4: "list_all (answered ch (firstBlockToSearch (self s)) h) (take 4 event_names)"
  defines "s1 \<equiv> snd (in_sequence (map (plain ch h) (take 4 plain_kinds)) s)"
  shows "fst (in_sequence (map (plain ch h) (take 4 plain_kinds)) s) = None"
    and "delta s s1 (contributions ch (firstBlockToSearch (self s)) h (self s) (take 4 plain_kinds))
           (map (request_of s h) (take 4 event_names))"
    and "self s1 = self s"
    and "store s1 (createEvents (self s)) = creates_seen ch h s"
proof -
  let ?c = "firstBlockToSearch (self s)"
  have a: "list_all (\<lambda>k. answered ch ?c h (fst k)) (take 4 plain_kinds)"
    using a4 by (simp add: list_all_names names_take4)
  from plains_answered[OF a]
  show f: "fst (in_sequence (map (plain ch h) (take 4 plain_kinds)) s) = None"
    and d: "delta s s1 (contributions ch ?c h (self s) (take 4 plain_kinds))
           (map (request_of s h) (take 4 event_names))"
    unfolding s1_def
    by (simp_all add: names_take4[symmetric] request_of_def[abs_def] comp_def)
  from d show "self s1 = self s" by (simp add: delta_def)
  have dist: "distinct (array_refs (self s))" using wf by (simp add: wf_def)
  from d show "store s1 (createEvents (self s)) = creates_seen ch h s"
    by (simp add: delta_def creates_seen_def first4_creates(1)[OF dist])
qed

lemma fetches_correlation_failure:
  assumes wf: "wf s"
    and a5: "list_all (answered ch (firstBlockToSearch (self s)) h) (take 5 event_names)"
    and nm: "\<not> list_all (has_match (creates_seen ch h s))
               (fetched ch (firstBlockToSearch (self s)) h ''NewSponsor'')"
  shows "fst (in_sequence (fetches ch h) s) = Some type_error"
    and "delta s (snd (in_sequence (fetches ch h) s))
           (\<lambda>q. contributions ch (firstBlockToSearch (self s)) h (self s) (take 4 plain_kinds) q @
                (if q = newSponsorEvents (self s) then newSponsor_appended ch h s else []))
           (map (request_of s h) (take 5 event_names))"
proof -
  let ?c = "firstBlockToSearch (self s)"
  let ?A = "map (plain ch h) (take 4 plain_kinds)"
  let ?B = "map (plain ch h) (drop 4 plain_kinds)"
  let ?s1 = "snd (in_sequence ?A s)"
  have a4: "list_all (answered ch ?c h) (take 4 event_names)"
    and an: "answered ch ?c h ''NewSponsor''"
    using a5 by (simp_all add: take5_event_names)
  note f4 = first4_state[OF wf a4]
  have ne: "createEvents (self ?s1) \<noteq> newSponsorEvents (self ?s1)"
    using wf f4(3) by (auto simp: wf_def array_refs_def)
  have an1: "answered ch (firstBlockToSearch (self ?s1)) h ''NewSponsor''"
    using an f4(3) by simp
  note ns = fetch_newSponsor_answered[OF ne an1]
  have nsf: "fst (fetch_newSponsor ch h ?s1) = Some type_error"
    using ns(1) nm f4(3,4) by simp
  have e: "in_sequence (fetches ch h) s = fetch_newSponsor ch h ?s1"
    unfolding fetches_eq
    using in_sequence_append_None[OF f4(1)] in_sequence_Cons_fst_Some[of "fetch_newSponsor ch h" ?s1 ?B] nsf
    by simp
  show "fst (in_sequence (fetches ch h) s) = Some type_error"
    unfolding e by (rule nsf)
  have d2: "delta ?s1 (snd (fetch_newSponsor ch h ?s1))
           (\<lambda>q. if q = newSponsorEvents (self s) then newSponsor_appended ch h s else [])
           [request_of s h ''NewSponsor'']"
    using ns(2) f4(3,4) by (simp add: newSponsor_appended_def request_of_def cong: if_cong)
  show "delta s (snd (in_sequence (fetches ch h) s))
           (\<lambda>q. contributions ch ?c h (self s) (take 4 plain_kinds) q @
                (if q = newSponsorEvents (self s) then newSponsor_appended ch h s else []))
           (map (request_of s h) (take 5 event_names))"
    unfolding e using delta_trans[OF f4(2) d2] by (simp add: take5_event_names)
qed

lemma fetches_success:
  assumes wf: "wf s" and ok: "fst (in_sequence (fetches ch h) s) = None"
  shows "list_all (answered ch (firstBlockToSearch (self s)) h) event_names"
    and "list_all (has_match (creates_seen ch h s))
           (fetched ch (firstBlockToSearch (self s)) h ''NewSponsor'')"
    and "delta s (snd (in_sequence (fetches ch h) s)) (appended ch h s)
           (map (request_of s h) event_names)"
proof -
  let ?c = "firstBlockToSearch (self s)"
  let ?A = "map (plain ch h) (take 4 plain_kinds)"
  let ?B = "map (plain ch h) (drop 4 plain_kinds)"
  let ?s1 = "snd (in_sequence ?A s)"
  let ?s2 = "snd (fetch_newSponsor ch h ?s1)"
  have fA: "fst (in_sequence ?A s) = None"
  proof (rule ccontr)
    assume n: "fst (in_sequence ?A s) \<noteq> None"
    have "in_sequence (fetches ch h) s = in_sequence ?A s"
      unfolding fetches_eq by (rule in_sequence_append_Some[OF n])
    with ok n show False by simp
  qed
  then have a4: "list_all (answered ch ?c h) (take 4 event_names)"
    by (simp add: plains_None_iff list_all_names names_take4)
  note f4 = first4_state[OF wf a4]
  have e1: "in_sequence (fetches ch h) s = in_sequence (fetch_newSponsor ch h # ?B) ?s1"
    unfolding fetches_eq using in_sequence_append_None[OF fA] by simp
  have fN: "fst (fetch_newSponsor ch h ?s1) = None"
  proof (rule ccontr)
    assume n: "fst (fetch_newSponsor ch h ?s1) \<noteq> None"
    have "in_sequence (fetches ch h) s = fetch_newSponsor ch h ?s1"
      unfolding e1 using n by (rule in_sequence_Cons_fst_Some[of "fetch_newSponsor ch h"])
    with ok n show False by simp
  qed
  have an: "answered ch ?c h ''NewSponsor''"
    using fN fetch_newSponsor_rejected[of ch ?s1 h] f4(3) by auto
  have ne: "createEvents (self ?s1) \<noteq> newSponsorEvents (self ?s1)"
    using wf f4(3) by (auto simp: wf_def array_refs_def)
  have an1: "answered ch (firstBlockToSearch (self ?s1)) h ''NewSponsor''"
    using an f4(3) by simp
  note ns = fetch_newSponsor_answered[OF ne an1]
  show hm: "list_all (has_match (creates_seen ch h s)) (fetched ch ?c h ''NewSponsor'')"
    using ns(1) fN f4(3,4) by (simp split: if_splits)
  have d2: "delta ?s1 ?s2
           (\<lambda>q. if q = newSponsorEvents (self s) then newSponsor_appended ch h s else [])
           [request_of s h ''NewSponsor'']"
    using ns(2) f4(3,4) by (simp add: newSponsor_appended_def request_of_def cong: if_cong)
  then have same2: "self ?s2 = self s" using f4(3) by (simp add: delta_def)
  have e2: "in_sequence (fetches ch h) s = in_sequence ?B ?s2"
    unfolding e1 using fN by (rule in_sequence_Cons_fst_None[of "fetch_newSponsor ch h"])
  have fB: "fst (in_sequence ?B ?s2) = None" using ok e2 by simp
  then have a7: "list_all (\<lambda>k. answered ch ?c h (fst k)) (drop 4 plain_kinds)"
    by (simp add: plains_None_iff same2)
  then have a7': "list_all (answered ch ?c h) (drop 5 event_names)"
    by (simp add: list_all_names names_drop4)
  show "list_all (answered ch ?c h) event_names"
    using a4 an a7' by (subst event_names_split) simp
  from a7 have "list_all (\<lambda>k. answered ch (firstBlockToSearch (self ?s2)) h (fst k)) (drop 4 plain_kinds)"
    by (simp add: same2)
  from plains_answered[OF this]
  have d3: "delta ?s2 (snd (in_sequence ?B ?s2))
           (contributions ch ?c h (self s) (drop 4 plain_kinds))
           (map (request_of s h) (drop 5 event_names))"
    by (simp add: same2 names_drop4[symmetric] request_of_def[abs_def] comp_def)
  have "delta s (snd (in_sequence ?B ?s2))
          (\<lambda>q. (contributions ch ?c h (self s) (take 4 plain_kinds) q @
                (if q = newSponsorEvents (self s) then newSponsor_appended ch h s else [])) @
               contributions ch ?c h (self s) (drop 4 plain_kinds) q)
          ((map (request_of s h) (take 4 event_names) @ [request_of s h ''NewSponsor'']) @
            map (request_of s h) (drop 5 event_names))"
    by (rule delta_trans[OF delta_trans[OF f4(2) d2] d3])
  moreover have "(map (request_of s h) (take 4 event_names) @ [request_of s h ''NewSponsor'']) @
            map (request_of s h) (drop 5 event_names) = map (request_of s h) event_names"
    by (subst (3) event_names_split) simp
  ultimately show "delta s (snd (in_sequence (fetches ch h) s)) (appended ch h s)
           (map (request_of s h) event_names)"
    unfolding e2 by (simp add: appended_def[abs_def])
qed

lemma contributions_notin:
  "q \<notin> set (plain_refs cl ks) \<Longrightarrow> contributions ch c h cl ks q = []"
  by (induction ks) (auto simp: contributions_def contribution_def plain_refs_def)

lemma contributions_in:
  "distinct (plain_refs cl ks) \<Longrightarrow> (name, field, keys) \<in> set ks \<Longrightarrow>
   contributions ch c h cl ks (field cl) = map (mk_record keys) (fetched ch c h name)"
proof (induction ks)
  case Nil
  then show ?case by simp
next
  case (Cons k ks)
  obtain n f ky where k: "k = (n, f, ky)" by (cases k)
  have split: "contributions ch c h cl (k # ks) q =
               contribution ch c h cl k q @ contributions ch c h cl ks q" for q
    by (simp add: contributions_def)
  show ?case
  proof (cases "(name, field, keys) = k")
    case True
    then have kk: "k = (name, field, keys)" by simp
    have "field cl \<notin> set (plain_refs cl ks)"
      using Cons.prems(1) unfolding kk by (simp add: plain_refs_def)
    from contributions_notin[OF this, of ch c h] split[of "field cl"] show ?thesis
      by (simp add: contribution_def kk)
  next
    case False
    then have m: "(name, field, keys) \<in> set ks" using Cons.prems(2) by simp
    then have fin: "field cl \<in> set (plain_refs cl ks)" by (force simp: plain_refs_def)
    have "f cl \<notin> set (plain_refs cl ks)" using Cons.prems(1) k by (simp add: plain_refs_def)
    with fin have "field cl \<noteq> f cl" by metis
    moreover have "distinct (plain_refs cl ks)" using Cons.prems(1) by (simp add: plain_refs_def)
    ultimately show ?thesis using Cons.IH m split[of "field cl"] by (simp add: contribution_def k)
  qed
qed

lemma contributions_append:
  "contributions ch c h cl (ks @ ks') q =
     contributions ch c h cl ks q @ contributions ch c h cl ks' q"
  by (simp add: contributions_def)

lemma set_array_refs:
  "set (array_refs cl) = insert (newSponsorEvents cl) (set (plain_refs cl plain_kinds))"
  by (auto simp: array_refs_def plain_refs_def plain_kinds_def)

lemma distinct_plain_refs:
  assumes "distinct (array_refs cl)"
  shows "distinct (newSponsorEvents cl # plain_refs cl plain_kinds)"
proof -
  have "set (newSponsorEvents cl # plain_refs cl plain_kinds) = set (array_refs cl)"
    by (simp add: set_array_refs)
  moreover have "length (newSponsorEvents cl # plain_refs cl plain_kinds) = length (array_refs cl)"
    by (simp add: array_refs_def plain_refs_def plain_kinds_def)
  ultimately have "card (set (newSponsorEvents cl # plain_refs cl plain_kinds)) =
                   length (newSponsorEvents cl # plain_refs cl plain_kinds)"
    using distinct_card[OF assms] by simp
  then show ?thesis by (rule card_distinct)
qed

lemma appended_eq:
  "appended ch h s q =
     (if q = newSponsorEvents (self s) then newSponsor_appended ch h s else []) @
     contributions ch (firstBlockToSearch (self s)) h (self s) plain_kinds q
   \<or> appended ch h s q =
     contributions ch (firstBlockToSearch (self s)) h (self s) plain_kinds q @
     (if q = newSponsorEvents (self s) then newSponsor_appended ch h s else [])"
  if "distinct (array_refs (self s))"
proof -
  note d = distinct_plain_refs[OF that]
  have pk: "contributions ch c h cl plain_kinds q =
        contributions ch c h cl (take 4 plain_kinds) q @ contributions ch c h cl (drop 4 plain_kinds) q"
    for c cl
    using contributions_append[of ch c h cl "take 4 plain_kinds" "drop 4 plain_kinds" q] by simp
  show ?thesis
  proof (cases "q = newSponsorEvents (self s)")
    case True
    then have "q \<notin> set (plain_refs (self s) plain_kinds)" using d by simp
    from contributions_notin[OF this] pk[of "firstBlockToSearch (self s)" "self s"]
    show ?thesis by (simp add: appended_def)
  next
    case False
    then show ?thesis by (simp add: appended_def pk)
  qed
qed

lemma appended_plain:
  assumes "wf s" and "(name, field, keys) \<in> set plain_kinds"
  shows "appended ch h s (field (self s)) =
           map (mk_record keys) (fetched ch (firstBlockToSearch (self s)) h name)"
proof -
  have d0: "distinct (array_refs (self s))" using assms(1) by (simp add: wf_def)
  note d = distinct_plain_refs[OF d0]
  have "field (self s) \<in> set (plain_refs (self s) plain_kinds)"
    using assms(2) by (force simp: plain_refs_def)
  then have ne: "field (self s) \<noteq> newSponsorEvents (self s)" using d by auto
  have c: "contributions ch (firstBlockToSearch (self s)) h (self s) plain_kinds (field (self s)) =
           map (mk_record keys) (fetched ch (firstBlockToSearch (self s)) h name)"
    using contributions_in[OF _ assms(2)] d by simp
  from appended_eq[OF d0, of ch h "field (self s)"] ne c show ?thesis by simp
qed

lemma appended_newSponsor:
  assumes "wf s"
  shows "appended ch h s (newSponsorEvents (self s)) = newSponsor_appended ch h s"
proof -
  have d: "distinct (array_refs (self s))" using assms(1) by (simp add: wf_def)
  show ?thesis by (simp add: appended_def first4_creates[OF d])
qed

lemma update_unfold:
  assumes "getBlockNumber ch = Inr h"
  shows "update ch s =
     (case in_sequence (fetches ch h) s of
        (Some e, s') \<Rightarrow> (Some e, s')
      | (None, s') \<Rightarrow>
          (case getCurrentTime ch of
             Inl e \<Rightarrow> (Some e, s'\<lparr>self := (self s')\<lparr>firstBlockToSearch := h + 1\<rparr>\<rparr>)
           | Inr t \<Rightarrow>
               (None, s'\<lparr>self := (self s')\<lparr>firstBlockToSearch := h + 1,
                                            lastUpdateTimestamp := t\<rparr>\<rparr>)))"
  using assms by (simp add: update_def Let_def split: prod.splits option.splits sum.splits)

lemma update_ok:
  assumes ok: "update ch s = (None, s')" and wf: "wf s"
  shows "\<exists>h t. getBlockNumber ch = Inr h \<and> getCurrentTime ch = Inr t \<and>
           self s' = (self s)\<lparr>firstBlockToSearch := h + 1, lastUpdateTimestamp := t\<rparr> \<and>
           next_ref s' = next_ref s \<and>
           requests s' = requests s @ map (request_of s h) event_names \<and>
           (\<forall>q. store s' q = store s q @ appended ch h s q) \<and>
           list_all (answered ch (firstBlockToSearch (self s)) h) event_names \<and>
           list_all (has_match (creates_seen ch h s))
             (fetched ch (firstBlockToSearch (self s)) h ''NewSponsor'')"
proof -
  from ok obtain h where h: "getBlockNumber ch = Inr h"
    by (cases "getBlockNumber ch") (auto simp: update_def)
  obtain r s1 where p: "in_sequence (fetches ch h) s = (r, s1)"
    by (cases "in_sequence (fetches ch h) s")
  from ok have r: "r = None"
    unfolding update_unfold[OF h] p by (cases r) auto
  from ok obtain t where t: "getCurrentTime ch = Inr t"
    unfolding update_unfold[OF h] p r by (cases "getCurrentTime ch") auto
  from ok have s': "s' = s1\<lparr>self := (self s1)\<lparr>firstBlockToSearch := h + 1,
                                            lastUpdateTimestamp := t\<rparr>\<rparr>"
    unfolding update_unfold[OF h] p r t by simp
  have f: "fst (in_sequence (fetches ch h) s) = None" using p r by simp
  note fs = fetches_success[OF wf f]
  from fs(3) p have d: "delta s s1 (appended ch h s) (map (request_of s h) event_names)" by simp
  show ?thesis
    using h t fs(1,2) d by (simp add: s' delta_def)
qed

lemma update_correlation_failure:
  assumes wf: "wf s" and h: "getBlockNumber ch = Inr h"
    and a5: "list_all (answered ch (firstBlockToSearch (self s)) h) (take 5 event_names)"
    and nm: "\<not> list_all (has_match (creates_seen ch h s))
               (fetched ch (firstBlockToSearch (self s)) h ''NewSponsor'')"
  shows "fst (update ch s) = Some type_error"
    and "delta s (snd (update ch s))
           (\<lambda>q. contributions ch (firstBlockToSearch (self s)) h (self s) (take 4 plain_kinds) q @
                (if q = newSponsorEvents (self s) then newSponsor_appended ch h s else []))
           (map (request_of s h) (take 5 event_names))"
proof -
  note cf = fetches_correlation_failure[OF wf a5 nm]
  obtain s1 where p: "in_sequence (fetches ch h) s = (Some type_error, s1)"
    using cf(1) by (cases "in_sequence (fetches ch h) s") auto
  have u: "update ch s = (Some type_error, s1)"
    unfolding update_unfold[OF h] p by simp
  show "fst (update ch s) = Some type_error" using u by simp
  show "delta s (snd (update ch s))
           (\<lambda>q. contributions ch (firstBlockToSearch (self s)) h (self s) (take 4 plain_kinds) q @
                (if q = newSponsorEvents (self s) then newSponsor_appended ch h s else []))
           (map (request_of s h) (take 5 event_names))"
    using cf(2) p u by simp
qed

text \<open>Whatever the outcome: the fields keep their arrays, and arrays only grow.\<close>

lemma update_grows:
  shows "array_refs (self (snd (update ch s))) = array_refs (self s)"
    and "next_ref (snd (update ch s)) = next_ref s"
    and "\<exists>ys. store (snd (update ch s)) q = store s q @ ys"
    and "\<exists>names h. requests (snd (update ch s)) =
           requests s @ map (\<lambda>n. (n, firstBlockToSearch (self s), h)) names"
proof -
  have "array_refs (self (snd (update ch s))) = array_refs (self s) \<and>
        next_ref (snd (update ch s)) = next_ref s \<and>
        (\<exists>ys. store (snd (update ch s)) q = store s q @ ys) \<and>
        (\<exists>names h. requests (snd (update ch s)) =
           requests s @ map (\<lambda>n. (n, firstBlockToSearch (self s), h)) names)"
  proof (cases "getBlockNumber ch")
    case (Inl e)
    then have "update ch s = (Some e, s)" by (simp add: update_def)
    then show ?thesis by auto
  next
    case (Inr h)
    obtain r s1 where p: "in_sequence (fetches ch h) s = (r, s1)"
      by (cases "in_sequence (fetches ch h) s")
    have g: "grows s s1 (firstBlockToSearch (self s)) h"
      using fetches_grows[of s ch h] p by simp
    then have g': "array_refs (self s1) = array_refs (self s) \<and> next_ref s1 = next_ref s \<and>
        (\<exists>ys. store s1 q = store s q @ ys) \<and>
        (\<exists>names h. requests s1 = requests s @ map (\<lambda>n. (n, firstBlockToSearch (self s), h)) names)"
      unfolding grows_def by auto
    show ?thesis
      using g' unfolding update_unfold[OF Inr] p
      by (auto simp: array_refs_def split: option.splits sum.splits)
  qed
  then show "array_refs (self (snd (update ch s))) = array_refs (self s)"
    and "next_ref (snd (update ch s)) = next_ref s"
    and "\<exists>ys. store (snd (update ch s)) q = store s q @ ys"
    and "\<exists>names h. requests (snd (update ch s)) =
           requests s @ map (\<lambda>n. (n, firstBlockToSearch (self s), h)) names"
    by blast+
qed

lemma wf_update: "wf s \<Longrightarrow> wf (snd (update ch s))"
  by (simp add: wf_def update_grows(1,2))

lemma wf_constructor: "wf (constructor n)"
  by (simp add: wf_def constructor_def array_refs_def)

lemma wf_clearState: "wf (clearState s)"
  by (simp add: wf_def clearState_def array_refs_def Let_def)

lemma fetches_all_answered:
  assumes wf: "wf s"
    and aa: "list_all (answered ch (firstBlockToSearch (self s)) h) event_names"
    and hm: "list_all (has_match (creates_seen ch h s))
               (fetched ch (firstBlockToSearch (self s)) h ''NewSponsor'')"
  shows "fst (in_sequence (fetches ch h) s) = None"
proof -
  let ?c = "firstBlockToSearch (self s)"
  let ?A = "map (plain ch h) (take 4 plain_kinds)"
  let ?B = "map (plain ch h) (drop 4 plain_kinds)"
  let ?s1 = "snd (in_sequence ?A s)"
  let ?s2 = "snd (fetch_newSponsor ch h ?s1)"
  from aa have a4: "list_all (answered ch ?c h) (take 4 event_names)"
    and an: "answered ch ?c h ''NewSponsor''"
    and a7: "list_all (answered ch ?c h) (drop 5 event_names)"
    by (simp_all add: event_names_def)
  note f4 = first4_state[OF wf a4]
  have ne: "createEvents (self ?s1) \<noteq> newSponsorEvents (self ?s1)"
    using wf f4(3) by (auto simp: wf_def array_refs_def)
  have an1: "answered ch (firstBlockToSearch (self ?s1)) h ''NewSponsor''"
    using an f4(3) by simp
  note ns = fetch_newSponsor_answered[OF ne an1]
  have fN: "fst (fetch_newSponsor ch h ?s1) = None"
    using ns(1) hm f4(3,4) by simp
  have same2: "self ?s2 = self s" using ns(2) f4(3) by (simp add: delta_def)
  have e1: "in_sequence (fetches ch h) s = in_sequence (fetch_newSponsor ch h # ?B) ?s1"
    unfolding fetches_eq using in_sequence_append_None[OF f4(1)] by simp
  have e2: "in_sequence (fetches ch h) s = in_sequence ?B ?s2"
    unfolding e1 using fN by (rule in_sequence_Cons_fst_None[of "fetch_newSponsor ch h"])
  have "list_all (\<lambda>k. answered ch (firstBlockToSearch (self ?s2)) h (fst k)) (drop 4 plain_kinds)"
    using a7 by (simp add: same2 list_all_names names_drop4)
  then have "fst (in_sequence ?B ?s2) = None" by (simp add: plains_None_iff)
  then show ?thesis unfolding e2 .
qed

text \<open>A call of \<open>update\<close> that succeeds, in closed form.\<close>

lemma update_success:
  assumes wf: "wf s" and h: "getBlockNumber ch = Inr h" and t: "getCurrentTime ch = Inr t"
    and aa: "list_all (answered ch (firstBlockToSearch (self s)) h) event_names"
    and hm: "list_all (has_match (creates_seen ch h s))
               (fetched ch (firstBlockToSearch (self s)) h ''NewSponsor'')"
  shows "fst (update ch s) = None"
    and "self (snd (update ch s)) =
           (self s)\<lparr>firstBlockToSearch := h + 1, lastUpdateTimestamp := t\<rparr>"
    and "next_ref (snd (update ch s)) = next_ref s"
    and "requests (snd (update ch s)) = requests s @ map (request_of s h) event_names"
    and "store (snd (update ch s)) q = store s q @ appended ch h s q"
proof -
  have f: "fst (in_sequence (fetches ch h) s) = None"
    by (rule fetches_all_answered[OF wf aa hm])
  then obtain s1 where p: "in_sequence (fetches ch h) s = (None, s1)"
    by (cases "in_sequence (fetches ch h) s") auto
  have u: "update ch s = (None, s1\<lparr>self := (self s1)\<lparr>firstBlockToSearch := h + 1,
                                            lastUpdateTimestamp := t\<rparr>\<rparr>)"
    unfolding update_unfold[OF h] p t by simp
  from u show "fst (update ch s) = None" by simp
  from update_ok[OF u wf] h t
  show "self (snd (update ch s)) =
           (self s)\<lparr>firstBlockToSearch := h + 1, lastUpdateTimestamp := t\<rparr>"
    and "next_ref (snd (update ch s)) = next_ref s"
    and "requests (snd (update ch s)) = requests s @ map (request_of s h) event_names"
    and "store (snd (update ch s)) q = store s q @ appended ch h s q"
    unfolding u by simp_all
qed

text \<open>The fields of the state after any call.\<close>

lemma update_refs:
  "liquidationEvents (self (snd (update ch s))) = liquidationEvents (self s)"
  "disputeEvents (self (snd (update ch s))) = disputeEvents (self s)"
  "disputeSettlementEvents (self (snd (update ch s))) = disputeSettlementEvents (self s)"
  "newSponsorEvents (self (snd (update ch s))) = newSponsorEvents (self s)"
  "depositEvents (self (snd (update ch s))) = depositEvents (self s)"
  "createEvents (self (snd (update ch s))) = createEvents (self s)"
  "withdrawEvents (self (snd (update ch s))) = withdrawEvents (self s)"
  "redeemEvents (self (snd (update ch s))) = redeemEvents (self s)"
  "regularFeeEvents (self (snd (update ch s))) = regularFeeEvents (self s)"
  "finalFeeEvents (self (snd (update ch s))) = finalFeeEvents (self s)"
  "liquidationWithdrawnEvents (self (snd (update ch s))) = liquidationWithdrawnEvents (self s)"
  "settleExpiredPositionEvents (self (snd (update ch s))) = settleExpiredPositionEvents (self s)"
  using update_grows(1)[of ch s] by (simp_all add: array_refs_def)

lemma plain_field_update:
  assumes "(name, field, keys) \<in> set plain_kinds"
  shows "field (self (snd (update ch s))) = field (self s)"
  using assms update_refs[of ch s] by (auto simp: plain_kinds_def)

lemma answers_simps [simp]:
  "getBlockNumber (answers h table) = Inr h"
  "getCurrentTime (answers h table) = Inr (1000 + h)"
  "answered (answers h table) c h' name"
  "fetched (answers h table) c h' name =
     filter (\<lambda>e. c \<le> blockNumber e \<and> blockNumber e \<le> h')
       (case map_of table name of Some evs \<Rightarrow> evs | None \<Rightarrow> [])"
  by (simp_all add: answers_def answered_def fetched_def)

lemma list_all_answered_answers [simp]: "list_all (answered (answers h table) c h') names"
  by (simp add: list_all_iff)

lemma clearState_simps:
  "firstBlockToSearch (self (clearState s)) = firstBlockToSearch (self s)"
  "lastUpdateTimestamp (self (clearState s)) = lastUpdateTimestamp (self s)"
  "requests (clearState s) = requests s"
  "next_ref (clearState s) = next_ref s + 12"
  "list_all (\<lambda>r. store (clearState s) r = []) (array_refs (self (clearState s)))"
  "r < next_ref s \<Longrightarrow> store (clearState s) r = store s r"
  by (simp_all add: clearState_def Let_def array_refs_def)

lemma accessors_array_refs:
  "list_all (\<lambda>get. P (get s)) accessors = list_all P (array_refs (self s))"
  by (auto simp: accessors_def array_refs_def getAllNewSponsorEvents_def getAllLiquidationEvents_def
      getAllDisputeEvents_def getAllDisputeSettlementEvents_def getAllDepositEvents_def
      getAllCreateEvents_def getAllWithdrawEvents_def getAllRedeemEvents_def
      getAllRegularFeeEvents_def getAllFinalFeeEvents_def getAllLiquidationWithdrawnEvents_def
      getAllSettleExpiredPositionEvents_def)

section \<open>The event client: claims\<close>

subsection \<open>Reset (C6)\<close>

text \<open>
  Claim C6. After \<^verbatim>\<open>clearState\<close> (the reset) each of the twelve accessors returns an
  empty array, while the cursor and the last-update timestamp are what they were; so
  every request of the next \<^verbatim>\<open>update\<close> starts at the cursor from before the reset,
  and a successful one issues the twelve requests from that cursor to the current height.
\<close>

theorem C6_reset_keeps_cursor:
  "list_all (\<lambda>get. store (clearState s) (get (clearState s)) = []) accessors \<and>
   firstBlockToSearch (self (clearState s)) = firstBlockToSearch (self s) \<and>
   getLastUpdateTime (clearState s) = getLastUpdateTime s \<and>
   (\<exists>names h. requests (snd (update ch (clearState s))) =
       requests s @ map (\<lambda>n. (n, firstBlockToSearch (self s), h)) names) \<and>
   (fst (update ch (clearState s)) = None \<longrightarrow>
      (\<exists>h. getBlockNumber ch = Inr h \<and>
           requests (snd (update ch (clearState s))) =
             requests s @ map (\<lambda>n. (n, firstBlockToSearch (self s), h)) event_names))"
proof -
  have a: "list_all (\<lambda>get. store (clearState s) (get (clearState s)) = []) accessors"
    using accessors_array_refs[of "\<lambda>r. store (clearState s) r = []" "clearState s"]
      clearState_simps(5)[of s] by simp
  have b: "\<exists>names h. requests (snd (update ch (clearState s))) =
       requests s @ map (\<lambda>n. (n, firstBlockToSearch (self s), h)) names"
    using update_grows(4)[of ch "clearState s"] by (simp add: clearState_simps)
  have c: "\<exists>h. getBlockNumber ch = Inr h \<and>
           requests (snd (update ch (clearState s))) =
             requests s @ map (\<lambda>n. (n, firstBlockToSearch (self s), h)) event_names"
    if ok: "fst (update ch (clearState s)) = None"
  proof -
    from ok have u: "update ch (clearState s) = (None, snd (update ch (clearState s)))"
      by (cases "update ch (clearState s)") simp
    from update_ok[OF u wf_clearState] show ?thesis
      by (auto simp: clearState_simps request_of_def[abs_def])
  qed
  show ?thesis using a b c by (simp add: clearState_simps getLastUpdateTime_def)
qed

lemma constructor_simps [simp]:
  "firstBlockToSearch (self (constructor n)) = n"
  "lastUpdateTimestamp (self (constructor n)) = 0"
  "store (constructor n) r = []"
  "requests (constructor n) = []"
  "next_ref (constructor n) = 12"
  by (simp_all add: constructor_def)

lemma creates_seen_constructor:
  "creates_seen ch h (constructor n) = map (mk_record create_keys) (fetched ch n h ''PositionCreated'')"
  by (simp add: creates_seen_def)

lemma state_a:
  "fst (update chain_a (constructor 0)) = None"
  "firstBlockToSearch (self state_a) = 11"
  "lastUpdateTimestamp (self state_a) = 1010"
  "requests state_a = map (\<lambda>n. (n, 0, 10)) event_names"
  "wf state_a"
proof -
  have h: "getBlockNumber chain_a = Inr 10" and t: "getCurrentTime chain_a = Inr 1010"
    by (simp_all add: chain_a_def)
  have aa: "list_all (answered chain_a (firstBlockToSearch (self (constructor 0))) 10) event_names"
    by (simp add: chain_a_def)
  have hm: "list_all (has_match (creates_seen chain_a 10 (constructor 0)))
               (fetched chain_a (firstBlockToSearch (self (constructor 0))) 10 ''NewSponsor'')"
    by (simp add: creates_seen_constructor chain_a_def has_match_def raw_def mk_record_def)
  note u = update_success[OF wf_constructor h t aa hm]
  show "fst (update chain_a (constructor 0)) = None" by (rule u(1))
  show "firstBlockToSearch (self state_a) = 11" unfolding state_a_def u(2) by simp
  show "lastUpdateTimestamp (self state_a) = 1010" unfolding state_a_def u(2) by simp
  show "requests state_a = map (\<lambda>n. (n, 0, 10)) event_names"
    unfolding state_a_def u(4) by (simp add: request_of_def[abs_def])
  show "wf state_a" unfolding state_a_def by (rule wf_update[OF wf_constructor])
qed

theorem C6_reset_witness:
  "fst (update chain_b (clearState state_a)) = None \<and>
   (\<exists>h. getBlockNumber chain_b = Inr h \<and>
        requests (snd (update chain_b (clearState state_a))) =
          requests state_a @ map (\<lambda>n. (n, 11, h)) event_names)"
proof -
  have h: "getBlockNumber chain_b = Inr 20" and t: "getCurrentTime chain_b = Inr 1020"
    by (simp_all add: chain_b_def)
  have c: "firstBlockToSearch (self (clearState state_a)) = 11"
    by (simp add: clearState_simps state_a)
  have aa: "list_all (answered chain_b (firstBlockToSearch (self (clearState state_a))) 20) event_names"
    by (simp add: chain_b_def)
  have "fetched chain_b 11 20 ''NewSponsor'' = []"
    by (simp add: chain_b_def raw_def)
  then have hm: "list_all (has_match (creates_seen chain_b 20 (clearState state_a)))
               (fetched chain_b (firstBlockToSearch (self (clearState state_a))) 20 ''NewSponsor'')"
    by (simp add: c)
  have ok: "fst (update chain_b (clearState state_a)) = None"
    by (rule update_success(1)[OF wf_clearState h t aa hm])
  with C6_reset_keeps_cursor[of state_a chain_b] show ?thesis
    by (simp add: state_a)
qed

subsection \<open>A NewSponsor event without a PositionCreated record (C2)\<close>

lemma fetch_newSponsor_rejected_delta:
  assumes "\<not> answered ch (firstBlockToSearch (self s)) h ''NewSponsor''"
  shows "delta s (snd (fetch_newSponsor ch h s)) (\<lambda>q. [])
           [(''NewSponsor'', firstBlockToSearch (self s), h)]"
  using assms
  by (auto simp: fetch_newSponsor_def fetch_def answered_def delta_def split: sum.splits)

lemma update_newSponsor_rejected:
  assumes wf: "wf s" and h: "getBlockNumber ch = Inr h"
    and a4: "list_all (answered ch (firstBlockToSearch (self s)) h) (take 4 event_names)"
    and rj: "\<not> answered ch (firstBlockToSearch (self s)) h ''NewSponsor''"
  shows "fst (update ch s) \<noteq> None"
    and "delta s (snd (update ch s))
           (contributions ch (firstBlockToSearch (self s)) h (self s) (take 4 plain_kinds))
           (map (request_of s h) (take 5 event_names))"
proof -
  let ?c = "firstBlockToSearch (self s)"
  let ?A = "map (plain ch h) (take 4 plain_kinds)"
  let ?B = "map (plain ch h) (drop 4 plain_kinds)"
  let ?s1 = "snd (in_sequence ?A s)"
  note f4 = first4_state[OF wf a4]
  have rj1: "\<not> answered ch (firstBlockToSearch (self ?s1)) h ''NewSponsor''"
    using rj f4(3) by simp
  have nsf: "fst (fetch_newSponsor ch h ?s1) \<noteq> None"
    by (rule fetch_newSponsor_rejected[OF rj1])
  have e: "in_sequence (fetches ch h) s = fetch_newSponsor ch h ?s1"
    unfolding fetches_eq
    using in_sequence_append_None[OF f4(1)] in_sequence_Cons_fst_Some[of "fetch_newSponsor ch h" ?s1 ?B] nsf
    by simp
  from nsf e have "fst (in_sequence (fetches ch h) s) \<noteq> None" by simp
  then obtain e' s2 where p: "in_sequence (fetches ch h) s = (Some e', s2)"
    by (cases "in_sequence (fetches ch h) s") auto
  have u: "update ch s = (Some e', s2)"
    unfolding update_unfold[OF h] p by simp
  show "fst (update ch s) \<noteq> None" using u by simp
  have d2: "delta ?s1 (snd (fetch_newSponsor ch h ?s1)) (\<lambda>q. []) [request_of s h ''NewSponsor'']"
    using fetch_newSponsor_rejected_delta[OF rj1] f4(3) by (simp add: request_of_def)
  have "snd (update ch s) = snd (fetch_newSponsor ch h ?s1)" using u p e by simp
  then show "delta s (snd (update ch s))
           (contributions ch ?c h (self s) (take 4 plain_kinds))
           (map (request_of s h) (take 5 event_names))"
    using delta_trans[OF f4(2) d2] by (simp add: take5_event_names)
qed

lemma first4_contributions:
  assumes wf: "wf s"
  shows "(name, field, keys) \<in> set (take 4 plain_kinds) \<Longrightarrow>
           contributions ch c h (self s) (take 4 plain_kinds) (field (self s)) =
             map (mk_record keys) (fetched ch c h name)"
    and "(name, field, keys) \<in> set (drop 4 plain_kinds) \<Longrightarrow>
           contributions ch c h (self s) (take 4 plain_kinds) (field (self s)) = []"
proof -
  have d0: "distinct (array_refs (self s))" using wf by (simp add: wf_def)
  from distinct_plain_refs[OF d0] have d: "distinct (plain_refs (self s) plain_kinds)" by simp
  have sp: "plain_refs (self s) plain_kinds =
            plain_refs (self s) (take 4 plain_kinds) @ plain_refs (self s) (drop 4 plain_kinds)"
    unfolding plain_refs_def by (simp flip: map_append)
  from d have d4: "distinct (plain_refs (self s) (take 4 plain_kinds))"
    and dj: "set (plain_refs (self s) (take 4 plain_kinds)) \<inter>
             set (plain_refs (self s) (drop 4 plain_kinds)) = {}"
    unfolding sp by simp_all
  show "contributions ch c h (self s) (take 4 plain_kinds) (field (self s)) =
             map (mk_record keys) (fetched ch c h name)"
    if "(name, field, keys) \<in> set (take 4 plain_kinds)"
    by (rule contributions_in[OF d4 that])
  show "contributions ch c h (self s) (take 4 plain_kinds) (field (self s)) = []"
    if m: "(name, field, keys) \<in> set (drop 4 plain_kinds)"
  proof -
    from m have "field (self s) \<in> set (plain_refs (self s) (drop 4 plain_kinds))"
      by (force simp: plain_refs_def)
    with dj have "field (self s) \<notin> set (plain_refs (self s) (take 4 plain_kinds))" by blast
    then show ?thesis by (rule contributions_notin)
  qed
qed

lemma wf_distinct: "wf s \<Longrightarrow> distinct (array_refs (self s))"
  by (simp add: wf_def)

lemma blockNumber_correlate [simp]: "blockNumber (correlate cs event) = blockNumber event"
  by (simp add: correlate_def mk_newSponsor_def)

lemma blockNumber_mk_record [simp]: "blockNumber (mk_record keys event) = blockNumber event"
  by (simp add: mk_record_def)

lemma has_match_blockNumber:
  "blockNumber e = blockNumber e' \<Longrightarrow> has_match cs e = has_match cs e'"
  by (simp add: has_match_def)

lemma rejecting_simps [simp]:
  "getBlockNumber (rejecting name ch) = getBlockNumber ch"
  "getCurrentTime (rejecting name ch) = getCurrentTime ch"
  "answered (rejecting name ch) c h n = (n \<noteq> name \<and> answered ch c h n)"
  "fetched (rejecting name ch) c h n = (if n = name then [] else fetched ch c h n)"
  by (simp_all add: rejecting_def answered_def fetched_def)

lemma create_in_first4:
  "(''PositionCreated'', createEvents, create_keys) \<in> set (take 4 plain_kinds)"
  "(''LiquidationCreated'', liquidationEvents,
      [''sponsor'', ''liquidator'', ''liquidationId'', ''tokensOutstanding'',
       ''lockedCollateral'', ''liquidatedCollateral'']) \<in> set (take 4 plain_kinds)"
  by (simp_all add: plain_kinds_def create_keys_def)


lemma state_r:
  "fst (update (rejecting ''NewSponsor'' chain_a) (constructor 0)) \<noteq> None"
  "firstBlockToSearch (self state_r) = 0"
  "wf state_r"
  "store state_r (createEvents (self state_r)) =
     [mk_record create_keys (raw ''0xc1'' 5 [(''sponsor'', ''0x51''),
        (''collateralAmount'', ''100''), (''tokenAmount'', ''50'')])]"
  "store state_r (newSponsorEvents (self state_r)) = []"
  "map blockNumber (store state_r (liquidationEvents (self state_r))) = [3, 6]"
proof -
  let ?ch = "rejecting ''NewSponsor'' chain_a"
  have h: "getBlockNumber ?ch = Inr 10" by (simp add: chain_a_def)
  have a4: "list_all (answered ?ch (firstBlockToSearch (self (constructor 0))) 10) (take 4 event_names)"
    by (simp add: chain_a_def event_names_def)
  have rj: "\<not> answered ?ch (firstBlockToSearch (self (constructor 0))) 10 ''NewSponsor''"
    by simp
  note u = update_newSponsor_rejected[OF wf_constructor h a4 rj]
  note d = u(2)[unfolded delta_def, folded state_r_def]
  show "fst (update ?ch (constructor 0)) \<noteq> None" by (rule u(1))
  from d show "firstBlockToSearch (self state_r) = 0" by simp
  show "wf state_r" unfolding state_r_def by (rule wf_update[OF wf_constructor])
  from d have r: "createEvents (self state_r) = createEvents (self (constructor 0))"
    "newSponsorEvents (self state_r) = newSponsorEvents (self (constructor 0))"
    "liquidationEvents (self state_r) = liquidationEvents (self (constructor 0))"
    by simp_all
  from d show "store state_r (createEvents (self state_r)) =
     [mk_record create_keys (raw ''0xc1'' 5 [(''sponsor'', ''0x51''),
        (''collateralAmount'', ''100''), (''tokenAmount'', ''50'')])]"
    unfolding r
    by (simp add: first4_contributions(1)[OF wf_constructor create_in_first4(1)]
        chain_a_def raw_def)
  from d show "store state_r (newSponsorEvents (self state_r)) = []"
    unfolding r by (simp add: first4_creates(2)[OF wf_distinct[OF wf_constructor]])
  from d show "map blockNumber (store state_r (liquidationEvents (self state_r))) = [3, 6]"
    unfolding r
    by (simp add: first4_contributions(1)[OF wf_constructor create_in_first4(2)]
        chain_a_def raw_def)
qed

lemma state_r_chain_d:
  "fetched chain_d (firstBlockToSearch (self state_r)) 10 ''PositionCreated'' = []"
  "fetched chain_d (firstBlockToSearch (self state_r)) 10 ''NewSponsor'' =
     [raw ''0xc1'' 5 [(''sponsor'', ''0x51'')]]"
  "fst (update chain_d state_r) = None"
  "store (snd (update chain_d state_r)) (newSponsorEvents (self state_r)) =
     [\<lparr>transactionHash = ''0xc1'', blockNumber = 5,
       props = [(''sponsor'', Some ''0x51''), (''collateralAmount'', Some ''100''),
                (''tokenAmount'', Some ''50'')]\<rparr>]"
proof -
  have h: "getBlockNumber chain_d = Inr 10" and t: "getCurrentTime chain_d = Inr 1010"
    by (simp_all add: chain_d_def)
  have aa: "list_all (answered chain_d (firstBlockToSearch (self state_r)) 10) event_names"
    by (simp add: chain_d_def)
  show fc: "fetched chain_d (firstBlockToSearch (self state_r)) 10 ''PositionCreated'' = []"
    by (simp add: chain_d_def)
  show fn: "fetched chain_d (firstBlockToSearch (self state_r)) 10 ''NewSponsor'' =
     [raw ''0xc1'' 5 [(''sponsor'', ''0x51'')]]"
    by (simp add: chain_d_def state_r(2) raw_def)
  have cs: "creates_seen chain_d 10 state_r =
     [mk_record create_keys (raw ''0xc1'' 5 [(''sponsor'', ''0x51''),
        (''collateralAmount'', ''100''), (''tokenAmount'', ''50'')])]"
    by (simp add: creates_seen_def fc state_r(4))
  have hm: "list_all (has_match (creates_seen chain_d 10 state_r))
               (fetched chain_d (firstBlockToSearch (self state_r)) 10 ''NewSponsor'')"
    unfolding cs fn by (simp add: has_match_def raw_def)
  note u = update_success[OF state_r(3) h t aa hm]
  show "fst (update chain_d state_r) = None" by (rule u(1))
  show "store (snd (update chain_d state_r)) (newSponsorEvents (self state_r)) =
     [\<lparr>transactionHash = ''0xc1'', blockNumber = 5,
       props = [(''sponsor'', Some ''0x51''), (''collateralAmount'', Some ''100''),
                (''tokenAmount'', Some ''50'')]\<rparr>]"
    unfolding u(5) appended_newSponsor[OF state_r(3)] newSponsor_appended_def cs fn
    by (simp add: state_r(5) has_match_def correlate_def raw_def mk_record_def mk_newSponsor_def
        returnValue_def get_prop_def create_keys_def)
qed

text \<open>
  Claim C2, as amended. The NewSponsor loop looks for the PositionCreated record among
  all the records cached, those earlier calls left there and those of the
  PositionCreated events this call fetched. When the first five requests of a call of
  \<^verbatim>\<open>update\<close> are answered and one of the NewSponsor events fetched has no record
  with its block number among all of these, the call fails with the TypeError of
  \<^verbatim>\<open>createEvent[0].collateralAmount\<close> (the error the specification calls a
  ConsistencyError), and no record with the block number of that event is appended to
  the NewSponsor array: what is appended are the records of the events before the first
  unmatched one.
\<close>

theorem C2_unmatched_newSponsor_fails:
  assumes "wf s" and "getBlockNumber ch = Inr h"
    and "list_all (answered ch (firstBlockToSearch (self s)) h) (take 5 event_names)"
    and "event \<in> set (fetched ch (firstBlockToSearch (self s)) h ''NewSponsor'')"
    and "\<not> has_match (creates_seen ch h s) event"
  shows "fst (update ch s) = Some type_error \<and>
         store (snd (update ch s)) (getAllNewSponsorEvents (snd (update ch s))) =
           store s (getAllNewSponsorEvents s) @ newSponsor_appended ch h s \<and>
         (\<forall>r \<in> set (newSponsor_appended ch h s). blockNumber r \<noteq> blockNumber event)"
proof -
  from assms(4,5) have nm: "\<not> list_all (has_match (creates_seen ch h s))
               (fetched ch (firstBlockToSearch (self s)) h ''NewSponsor'')"
    by (auto simp: list_all_iff)
  note cf = update_correlation_failure[OF assms(1,2,3) nm]
  have "store (snd (update ch s)) (newSponsorEvents (self s)) =
          store s (newSponsorEvents (self s)) @ newSponsor_appended ch h s"
    using cf(2) first4_creates(2)[OF wf_distinct[OF assms(1)]] by (simp add: delta_def)
  then have st: "store (snd (update ch s)) (getAllNewSponsorEvents (snd (update ch s))) =
           store s (getAllNewSponsorEvents s) @ newSponsor_appended ch h s"
    by (simp add: getAllNewSponsorEvents_def update_refs)
  have "blockNumber r \<noteq> blockNumber event" if "r \<in> set (newSponsor_appended ch h s)" for r
  proof
    assume eq: "blockNumber r = blockNumber event"
    from that obtain ev where r: "r = correlate (creates_seen ch h s) ev"
      and m: "has_match (creates_seen ch h s) ev"
      unfolding newSponsor_appended_def by (auto dest: set_takeWhileD)
    from eq r have "blockNumber ev = blockNumber event" by simp
    from has_match_blockNumber[OF this] m assms(5) show False by simp
  qed
  with cf(1) st show ?thesis by blast
qed

theorem C2_unmatched_newSponsor_witness:
  "raw ''0xc2'' 81 [(''sponsor'', ''0x52'')] \<in> set (fetched chain_c 50 100 ''NewSponsor'') \<and>
   fst (update chain_c (constructor 50)) = Some type_error \<and>
   store (snd (update chain_c (constructor 50)))
     (getAllNewSponsorEvents (snd (update chain_c (constructor 50)))) = []"
proof -
  have h: "getBlockNumber chain_c = Inr 100" by (simp add: chain_c_def)
  have a5: "list_all (answered chain_c (firstBlockToSearch (self (constructor 50))) 100)
              (take 5 event_names)"
    by (simp add: chain_c_def)
  have f: "fetched chain_c 50 100 ''NewSponsor'' = [raw ''0xc2'' 81 [(''sponsor'', ''0x52'')]]"
    by (simp add: chain_c_def raw_def)
  have m: "raw ''0xc2'' 81 [(''sponsor'', ''0x52'')] \<in>
             set (fetched chain_c (firstBlockToSearch (self (constructor 50))) 100 ''NewSponsor'')"
    by (simp add: f)
  have n: "\<not> has_match (creates_seen chain_c 100 (constructor 50))
               (raw ''0xc2'' 81 [(''sponsor'', ''0x52'')])"
    by (simp add: creates_seen_constructor chain_c_def has_match_def raw_def)
  have ap: "newSponsor_appended chain_c 100 (constructor 50) = []"
    using n by (simp add: newSponsor_appended_def f)
  from C2_unmatched_newSponsor_fails[OF wf_constructor h a5 m n] m show ?thesis
    by (simp add: ap getAllNewSponsorEvents_def)
qed

text \<open>
  After a call that cached the PositionCreated record of block 5 and then failed, a call
  fetches the NewSponsor event of block 5 and no PositionCreated event at all: it
  succeeds and appends the record.
\<close>

theorem C2_unmatched_in_its_call_is_appended:
  "getBlockNumber chain_d = Inr 10 \<and>
   raw ''0xc1'' 5 [(''sponsor'', ''0x51'')] \<in>
     set (fetched chain_d (firstBlockToSearch (self state_r)) 10 ''NewSponsor'') \<and>
   fetched chain_d (firstBlockToSearch (self state_r)) 10 ''PositionCreated'' = [] \<and>
   fst (update chain_d state_r) = None \<and>
   map (\<lambda>r. (transactionHash r, blockNumber r))
     (store (snd (update chain_d state_r))
        (getAllNewSponsorEvents (snd (update chain_d state_r)))) = [(''0xc1'', 5)]"
  using state_r_chain_d
  by (simp add: getAllNewSponsorEvents_def update_refs chain_d_def)

subsection \<open>What a NewSponsor event is correlated with (C5)\<close>

lemma update_ok_store:
  assumes ok: "update ch s = (None, s')" and wf: "wf s" and h: "getBlockNumber ch = Inr h"
  shows "store s' q = store s q @ appended ch h s q"
    and "list_all (has_match (creates_seen ch h s))
           (fetched ch (firstBlockToSearch (self s)) h ''NewSponsor'')"
    and "requests s' = requests s @ map (request_of s h) event_names"
    and "firstBlockToSearch (self s') = h + 1"
  using update_ok[OF ok wf] h by auto

lemma takeWhile_list_all: "list_all P xs \<Longrightarrow> takeWhile P xs = xs"
  by (induction xs) auto

lemma correlate_append_old:
  assumes "\<forall>c \<in> set old. blockNumber c \<noteq> blockNumber event"
  shows "correlate (old @ new) event = correlate new event"
proof -
  from assms have "filter (\<lambda>e. blockNumber e = blockNumber event) old = []"
    by (auto simp: filter_empty_conv)
  then show ?thesis by (simp add: correlate_def)
qed

text \<open>
  Claim C5, as amended. A call of \<^verbatim>\<open>update\<close> that succeeds pushes one record for
  every NewSponsor event it fetched; the record takes \<^verbatim>\<open>collateralAmount\<close> and
  \<^verbatim>\<open>tokenAmount\<close> from the first record, with the same block number, of the whole
  cached PositionCreated array as it stands in that call: the records earlier calls left
  there, followed by those of the PositionCreated events this call fetched. Where every
  record cached before the call lies below the cursor and no fetched NewSponsor event
  does, only the records of this call can match.
\<close>

theorem C5_correlation_over_whole_cache:
  assumes "wf s" and "update ch s = (None, s')" and "getBlockNumber ch = Inr h"
  shows "store s' (getAllNewSponsorEvents s') =
           store s (getAllNewSponsorEvents s) @
             map (correlate (store s (getAllCreateEvents s) @
                    map (mk_record create_keys)
                      (fetched ch (firstBlockToSearch (self s)) h ''PositionCreated'')))
               (fetched ch (firstBlockToSearch (self s)) h ''NewSponsor'') \<and>
         list_all (has_match (store s (getAllCreateEvents s) @
                    map (mk_record create_keys)
                      (fetched ch (firstBlockToSearch (self s)) h ''PositionCreated'')))
               (fetched ch (firstBlockToSearch (self s)) h ''NewSponsor'') \<and>
         ((\<forall>c \<in> set (store s (getAllCreateEvents s)). blockNumber c < firstBlockToSearch (self s)) \<and>
          (\<forall>e \<in> set (fetched ch (firstBlockToSearch (self s)) h ''NewSponsor'').
              firstBlockToSearch (self s) \<le> blockNumber e) \<longrightarrow>
          store s' (getAllNewSponsorEvents s') =
           store s (getAllNewSponsorEvents s) @
             map (correlate (map (mk_record create_keys)
                      (fetched ch (firstBlockToSearch (self s)) h ''PositionCreated'')))
               (fetched ch (firstBlockToSearch (self s)) h ''NewSponsor''))"
proof -
  let ?c = "firstBlockToSearch (self s)"
  let ?old = "store s (getAllCreateEvents s)"
  let ?new = "map (mk_record create_keys) (fetched ch ?c h ''PositionCreated'')"
  let ?ns = "fetched ch ?c h ''NewSponsor''"
  note u = update_ok_store[OF assms(2,1,3)]
  have cs: "creates_seen ch h s = ?old @ ?new"
    by (simp add: creates_seen_def getAllCreateEvents_def)
  have s': "s' = snd (update ch s)" using assms(2) by simp
  have hm: "list_all (has_match (?old @ ?new)) ?ns" using u(2) by (simp add: cs)
  have "store s' (newSponsorEvents (self s)) =
          store s (newSponsorEvents (self s)) @ map (correlate (?old @ ?new)) ?ns"
    using u(1)[of "newSponsorEvents (self s)"] hm
    by (simp add: appended_newSponsor[OF assms(1)] newSponsor_appended_def cs takeWhile_list_all)
  then have st: "store s' (getAllNewSponsorEvents s') =
           store s (getAllNewSponsorEvents s) @ map (correlate (?old @ ?new)) ?ns"
    by (simp add: getAllNewSponsorEvents_def s' update_refs)
  have "map (correlate (?old @ ?new)) ?ns = map (correlate ?new) ?ns"
    if a: "\<forall>c \<in> set ?old. blockNumber c < ?c" and b: "\<forall>e \<in> set ?ns. ?c \<le> blockNumber e"
  proof (rule map_cong[OF refl])
    fix e assume "e \<in> set ?ns"
    with b have "?c \<le> blockNumber e" by simp
    with a have "\<forall>c \<in> set ?old. blockNumber c \<noteq> blockNumber e" by fastforce
    then show "correlate (?old @ ?new) e = correlate ?new e" by (rule correlate_append_old)
  qed
  with st hm show ?thesis by simp
qed

theorem C5_earlier_pass_record_matches:
  "store state_r (getAllCreateEvents state_r) =
     [mk_record create_keys (raw ''0xc1'' 5 [(''sponsor'', ''0x51''),
        (''collateralAmount'', ''100''), (''tokenAmount'', ''50'')])] \<and>
   fetched chain_d (firstBlockToSearch (self state_r)) 10 ''PositionCreated'' = [] \<and>
   fetched chain_d (firstBlockToSearch (self state_r)) 10 ''NewSponsor'' =
     [raw ''0xc1'' 5 [(''sponsor'', ''0x51'')]] \<and>
   fst (update chain_d state_r) = None \<and>
   store (snd (update chain_d state_r)) (getAllNewSponsorEvents (snd (update chain_d state_r))) =
     [\<lparr>transactionHash = ''0xc1'', blockNumber = 5,
       props = [(''sponsor'', Some ''0x51''), (''collateralAmount'', Some ''100''),
                (''tokenAmount'', Some ''50'')]\<rparr>]"
  using state_r_chain_d state_r(4)
  by (simp add: getAllNewSponsorEvents_def getAllCreateEvents_def update_refs)

lemma create_in_plain:
  "(''PositionCreated'', createEvents, create_keys) \<in> set plain_kinds"
  by (simp add: plain_kinds_def create_keys_def)

lemma state_a_store:
  "store state_a (createEvents (self state_a)) =
     [mk_record create_keys (raw ''0xc1'' 5 [(''sponsor'', ''0x51''),
        (''collateralAmount'', ''100''), (''tokenAmount'', ''50'')])]"
  "store state_a (newSponsorEvents (self state_a)) =
     [\<lparr>transactionHash = ''0xc1'', blockNumber = 5,
       props = [(''sponsor'', Some ''0x51''), (''collateralAmount'', Some ''100''),
                (''tokenAmount'', Some ''50'')]\<rparr>]"
proof -
  have h: "getBlockNumber chain_a = Inr 10" and t: "getCurrentTime chain_a = Inr 1010"
    by (simp_all add: chain_a_def)
  have aa: "list_all (answered chain_a (firstBlockToSearch (self (constructor 0))) 10) event_names"
    by (simp add: chain_a_def)
  have cs: "creates_seen chain_a 10 (constructor 0) =
     [mk_record create_keys (raw ''0xc1'' 5 [(''sponsor'', ''0x51''),
        (''collateralAmount'', ''100''), (''tokenAmount'', ''50'')])]"
    by (simp add: creates_seen_constructor chain_a_def raw_def)
  have fn: "fetched chain_a (firstBlockToSearch (self (constructor 0))) 10 ''NewSponsor'' =
     [raw ''0xc1'' 5 [(''sponsor'', ''0x51'')]]"
    by (simp add: chain_a_def raw_def)
  have hm: "list_all (has_match (creates_seen chain_a 10 (constructor 0)))
               (fetched chain_a (firstBlockToSearch (self (constructor 0))) 10 ''NewSponsor'')"
    unfolding cs fn by (simp add: has_match_def raw_def)
  note u = update_success[OF wf_constructor h t aa hm, folded state_a_def]
  have r: "createEvents (self state_a) = createEvents (self (constructor 0))"
    "newSponsorEvents (self state_a) = newSponsorEvents (self (constructor 0))"
    unfolding state_a_def by (simp_all add: update_refs)
  show "store state_a (createEvents (self state_a)) =
     [mk_record create_keys (raw ''0xc1'' 5 [(''sponsor'', ''0x51''),
        (''collateralAmount'', ''100''), (''tokenAmount'', ''50'')])]"
    unfolding r u(5) appended_plain[OF wf_constructor create_in_plain]
    by (simp add: chain_a_def raw_def)
  show "store state_a (newSponsorEvents (self state_a)) =
     [\<lparr>transactionHash = ''0xc1'', blockNumber = 5,
       props = [(''sponsor'', Some ''0x51''), (''collateralAmount'', Some ''100''),
                (''tokenAmount'', Some ''50'')]\<rparr>]"
    unfolding r u(5) appended_newSponsor[OF wf_constructor] newSponsor_appended_def cs fn
    by (simp add: has_match_def correlate_def raw_def mk_record_def mk_newSponsor_def
        returnValue_def get_prop_def create_keys_def)
qed

theorem C5_correlation_witness:
  "fst (update chain_e state_a) = None \<and>
   store state_a (getAllCreateEvents state_a) \<noteq> [] \<and>
   list_all (\<lambda>c. blockNumber c < firstBlockToSearch (self state_a))
     (store state_a (getAllCreateEvents state_a)) \<and>
   fetched chain_e (firstBlockToSearch (self state_a)) 20 ''NewSponsor'' =
     [raw ''0xc3'' 15 [(''sponsor'', ''0x53'')]] \<and>
   store (snd (update chain_e state_a)) (getAllNewSponsorEvents (snd (update chain_e state_a))) =
     [\<lparr>transactionHash = ''0xc1'', blockNumber = 5,
       props = [(''sponsor'', Some ''0x51''), (''collateralAmount'', Some ''100''),
                (''tokenAmount'', Some ''50'')]\<rparr>,
      \<lparr>transactionHash = ''0xc3'', blockNumber = 15,
       props = [(''sponsor'', Some ''0x53''), (''collateralAmount'', Some ''300''),
                (''tokenAmount'', Some ''150'')]\<rparr>]"
proof -
  have h: "getBlockNumber chain_e = Inr 20" and t: "getCurrentTime chain_e = Inr 1020"
    by (simp_all add: chain_e_def)
  have aa: "list_all (answered chain_e (firstBlockToSearch (self state_a)) 20) event_names"
    by (simp add: chain_e_def)
  have fc: "fetched chain_e (firstBlockToSearch (self state_a)) 20 ''PositionCreated'' =
     [raw ''0xc3'' 15 [(''sponsor'', ''0x53''), (''collateralAmount'', ''300''),
                       (''tokenAmount'', ''150'')]]"
    by (simp add: chain_e_def state_a(2) raw_def)
  have fn: "fetched chain_e (firstBlockToSearch (self state_a)) 20 ''NewSponsor'' =
     [raw ''0xc3'' 15 [(''sponsor'', ''0x53'')]]"
    by (simp add: chain_e_def state_a(2) raw_def)
  have hm: "list_all (has_match (creates_seen chain_e 20 state_a))
               (fetched chain_e (firstBlockToSearch (self state_a)) 20 ''NewSponsor'')"
    unfolding fn by (simp add: creates_seen_def fc has_match_def raw_def)
  note u = update_success[OF state_a(5) h t aa hm]
  have ok: "update chain_e state_a = (None, snd (update chain_e state_a))"
    using u(1) by (cases "update chain_e state_a") simp
  have old: "\<forall>c \<in> set (store state_a (getAllCreateEvents state_a)).
               blockNumber c < firstBlockToSearch (self state_a)"
    by (simp add: getAllCreateEvents_def state_a_store state_a(2) raw_def)
  have new: "\<forall>e \<in> set (fetched chain_e (firstBlockToSearch (self state_a)) 20 ''NewSponsor'').
               firstBlockToSearch (self state_a) \<le> blockNumber e"
    unfolding fn by (simp add: state_a(2) raw_def)
  from C5_correlation_over_whole_cache[OF state_a(5) ok h] old new
  have "store (snd (update chain_e state_a)) (getAllNewSponsorEvents (snd (update chain_e state_a))) =
           store state_a (getAllNewSponsorEvents state_a) @
             map (correlate (map (mk_record create_keys)
                      (fetched chain_e (firstBlockToSearch (self state_a)) 20 ''PositionCreated'')))
               (fetched chain_e (firstBlockToSearch (self state_a)) 20 ''NewSponsor'')"
    by blast
  then show ?thesis
    using u(1) old fn
    by (simp add: fc[unfolded state_a(2)] getAllNewSponsorEvents_def getAllCreateEvents_def
        state_a_store state_a(2) list_all_iff correlate_def raw_def mk_record_def mk_newSponsor_def
        returnValue_def get_prop_def create_keys_def)
qed

subsection \<open>A call that fails in the NewSponsor loop, and the next one (C10)\<close>




lemma has_match_append: "has_match (xs @ ys) e \<longleftrightarrow> has_match xs e \<or> has_match ys e"
  by (auto simp: has_match_def)




subsection \<open>Block order within the arrays (C9)\<close>

lemma plain_names: "(name, field, keys) \<in> set plain_kinds \<Longrightarrow> name \<in> set event_names"
  by (auto simp: plain_kinds_def event_names_def)

lemma appended_blockNumbers:
  assumes wf: "wf s"
    and hm: "list_all (has_match (creates_seen ch h s))
               (fetched ch (firstBlockToSearch (self s)) h ''NewSponsor'')"
    and r: "r \<in> set (array_refs (self s))"
  shows "\<exists>name \<in> set event_names.
           map blockNumber (appended ch h s r) =
           map blockNumber (fetched ch (firstBlockToSearch (self s)) h name)"
proof (cases "r = newSponsorEvents (self s)")
  case True
  have "map blockNumber (appended ch h s r) =
        map blockNumber (fetched ch (firstBlockToSearch (self s)) h ''NewSponsor'')"
    unfolding True appended_newSponsor[OF wf] newSponsor_appended_def
      takeWhile_list_all[OF hm]
    by (simp add: comp_def)
  moreover have "''NewSponsor'' \<in> set event_names" by (simp add: event_names_def)
  ultimately show ?thesis by blast
next
  case False
  with r have "r \<in> set (plain_refs (self s) plain_kinds)" by (simp add: set_array_refs)
  then obtain name field keys where m: "(name, field, keys) \<in> set plain_kinds"
    and rf: "r = field (self s)"
    by (auto simp: plain_refs_def)
  have "map blockNumber (appended ch h s r) =
        map blockNumber (fetched ch (firstBlockToSearch (self s)) h name)"
    unfolding rf appended_plain[OF wf m] by (simp add: comp_def)
  with plain_names[OF m] show ?thesis by blast
qed

lemma ordered_below_append:
  assumes "ordered_below c xs" and "sorted (map blockNumber ys)"
    and "list_all (\<lambda>e. c \<le> blockNumber e \<and> blockNumber e \<le> h) ys"
    and "c \<le> h + 1"
  shows "ordered_below (h + 1) (xs @ ys)"
proof -
  from assms(1) have sx: "sorted (map blockNumber xs)"
    and bx: "\<forall>e \<in> set xs. blockNumber e < c"
    by (simp_all add: ordered_below_def list_all_iff)
  from assms(3) have by': "\<forall>e \<in> set ys. c \<le> blockNumber e \<and> blockNumber e \<le> h"
    by (simp add: list_all_iff)
  have cross: "\<forall>x \<in> set xs. \<forall>y \<in> set ys. blockNumber x \<le> blockNumber y"
  proof (intro ballI)
    fix x y assume "x \<in> set xs" "y \<in> set ys"
    with bx by' have "blockNumber x < c" "c \<le> blockNumber y" by simp_all
    then show "blockNumber x \<le> blockNumber y" by simp
  qed
  have "sorted (map blockNumber (xs @ ys))"
    using sx assms(2) cross by (simp add: sorted_append)
  moreover have "\<forall>e \<in> set (xs @ ys). blockNumber e < h + 1"
  proof
    fix e assume "e \<in> set (xs @ ys)"
    then consider "e \<in> set xs" | "e \<in> set ys" by auto
    then show "blockNumber e < h + 1"
    proof cases
      case 1
      with bx have "blockNumber e < c" by simp
      with assms(4) show ?thesis by simp
    next
      case 2
      with by' show ?thesis by fastforce
    qed
  qed
  ultimately show ?thesis by (simp add: ordered_below_def list_all_iff)
qed

lemma cache_inv_update:
  assumes inv: "cache_inv s" and ok: "update ch s = (None, s')" and tr: "truthful ch s"
  shows "cache_inv s'"
proof -
  from inv have wf: "wf s" by (simp add: cache_inv_def)
  from update_ok[OF ok wf] obtain h t where h: "getBlockNumber ch = Inr h"
    and self: "self s' = (self s)\<lparr>firstBlockToSearch := h + 1, lastUpdateTimestamp := t\<rparr>"
    and st: "\<And>q. store s' q = store s q @ appended ch h s q"
    and hm: "list_all (has_match (creates_seen ch h s))
               (fetched ch (firstBlockToSearch (self s)) h ''NewSponsor'')"
    by auto
  have hh: "height ch = h" by (simp add: height_def h)
  have s': "s' = snd (update ch s)" using ok by simp
  have wf': "wf s'" unfolding s' by (rule wf_update[OF wf])
  have refs: "array_refs (self s') = array_refs (self s)"
    unfolding s' by (rule update_grows(1))
  have "ordered_below (firstBlockToSearch (self s')) (store s' r)"
    if r: "r \<in> set (array_refs (self s))" for r
  proof -
    from inv r have old: "ordered_below (firstBlockToSearch (self s)) (store s r)"
      by (simp add: cache_inv_def list_all_iff)
    from appended_blockNumbers[OF wf hm r] obtain name where n: "name \<in> set event_names"
      and bn: "map blockNumber (appended ch h s r) =
               map blockNumber (fetched ch (firstBlockToSearch (self s)) h name)"
      by blast
    from tr n have f: "sorted (map blockNumber (fetched ch (firstBlockToSearch (self s)) h name))"
      "list_all (\<lambda>e. firstBlockToSearch (self s) \<le> blockNumber e \<and> blockNumber e \<le> h)
         (fetched ch (firstBlockToSearch (self s)) h name)"
      by (simp_all add: truthful_def hh list_all_iff)
    from f(2) have "\<forall>b \<in> set (map blockNumber (fetched ch (firstBlockToSearch (self s)) h name)).
                      firstBlockToSearch (self s) \<le> b \<and> b \<le> h"
      by (simp add: list_all_iff)
    then have "\<forall>b \<in> set (map blockNumber (appended ch h s r)).
                      firstBlockToSearch (self s) \<le> b \<and> b \<le> h"
      unfolding bn .
    then have a2: "list_all (\<lambda>e. firstBlockToSearch (self s) \<le> blockNumber e \<and> blockNumber e \<le> h)
                     (appended ch h s r)"
      by (simp add: list_all_iff)
    have a1: "sorted (map blockNumber (appended ch h s r))" unfolding bn by (rule f(1))
    from tr have le: "firstBlockToSearch (self s) \<le> h + 1" by (simp add: truthful_def hh)
    from ordered_below_append[OF old a1 a2 le] show ?thesis
      by (simp add: self st)
  qed
  then show ?thesis
    using wf' by (simp add: cache_inv_def refs list_all_iff)
qed

lemma cache_inv_constructor: "cache_inv (constructor n)"
  by (simp add: cache_inv_def wf_constructor ordered_below_def list_all_iff)

lemma cache_inv_clearState: "cache_inv (clearState s)"
  using clearState_simps(5)[of s]
  by (simp add: cache_inv_def wf_clearState ordered_below_def list_all_iff)

lemma cache_inv_perform:
  assumes "cache_inv s" and "perform cs s = Some s'" and "truthful_calls cs s"
  shows "cache_inv s'"
  using assms
proof (induction cs s rule: perform.induct)
  case (1 s)
  then show ?case by simp
next
  case (2 ch cs s)
  from "2.prems"(2) obtain s1 where u: "update ch s = (None, s1)" and p: "perform cs s1 = Some s'"
    by (auto split: prod.splits option.splits)
  from "2.prems"(3) u have t: "truthful ch s" and tc: "truthful_calls cs s1" by simp_all
  have "cache_inv s1" by (rule cache_inv_update[OF "2.prems"(1) u t])
  from "2.IH"[OF u[symmetric] refl this p tc] show ?case .
next
  case (3 cs s)
  then show ?case using cache_inv_clearState by simp
next
  case (4 k cs s)
  then show ?case by simp
qed

text \<open>
  Claim C9, as amended. Start from the constructor and perform any sequence of calls
  in which every \<^verbatim>\<open>update\<close> succeeds, with resets and accessor calls in between. If the
  chain is truthful at every \<^verbatim>\<open>update\<close> (its height is not below the last block
  scanned, and every request is answered with events of the requested range in
  ascending block order), then in the state reached every array an accessor returns is
  non-decreasing by block number.
\<close>

theorem C9_sequences_sorted:
  assumes "perform cs (constructor n) = Some s" and "truthful_calls cs (constructor n)"
  shows "list_all (\<lambda>get. sorted (map blockNumber (store s (get s)))) accessors"
proof -
  have "cache_inv s" by (rule cache_inv_perform[OF cache_inv_constructor assms])
  then have "list_all (\<lambda>r. sorted (map blockNumber (store s r))) (array_refs (self s))"
    by (simp add: cache_inv_def ordered_below_def list_all_iff)
  then show ?thesis
    using accessors_array_refs[of "\<lambda>r. sorted (map blockNumber (store s r))" s] by simp
qed

lemma height_answers [simp]: "height (answers h table) = h"
  by (simp add: height_def)

lemma height_rejecting [simp]: "height (rejecting name ch) = height ch"
  by (simp add: height_def)

lemma truthful_answers:
  assumes "firstBlockToSearch (self s) \<le> h + 1"
    and "list_all (\<lambda>row. sorted (map blockNumber (snd row))) table"
  shows "truthful (answers h table) s"
proof -
  have "sorted (map blockNumber (case map_of table name of Some evs \<Rightarrow> evs | None \<Rightarrow> []))"
    for name
  proof (cases "map_of table name")
    case None
    then show ?thesis by simp
  next
    case (Some evs)
    from map_of_SomeD[OF this] assms(2) show ?thesis
      by (auto simp: Some list_all_iff)
  qed
  then show ?thesis
    using assms(1) by (simp add: truthful_def list_all_iff sorted_filter)
qed

lemma truthful_rejecting:
  assumes "truthful ch s"
  shows "truthful (rejecting name ch) s"
  using assms by (simp add: truthful_def list_all_iff)

lemma liquidation_in_plain:
  "(''LiquidationCreated'', liquidationEvents,
      [''sponsor'', ''liquidator'', ''liquidationId'', ''tokensOutstanding'',
       ''lockedCollateral'', ''liquidatedCollateral'']) \<in> set plain_kinds"
  by (simp add: plain_kinds_def)

lemma truthful_chain_a: "firstBlockToSearch (self s) \<le> 11 \<Longrightarrow> truthful chain_a s"
  unfolding chain_a_def by (rule truthful_answers) (simp_all add: raw_def)

lemma truthful_chain_e: "firstBlockToSearch (self s) \<le> 21 \<Longrightarrow> truthful chain_e s"
  unfolding chain_e_def by (rule truthful_answers) (simp_all add: raw_def)

lemma state_a_chain_e:
  "fst (update chain_e state_a) = None"
  "store (snd (update chain_e state_a)) (createEvents (self state_a)) =
     store state_a (createEvents (self state_a)) @
       map (mk_record create_keys) (fetched chain_e 11 20 ''PositionCreated'')"
proof -
  have h: "getBlockNumber chain_e = Inr 20" and t: "getCurrentTime chain_e = Inr 1020"
    by (simp_all add: chain_e_def)
  have aa: "list_all (answered chain_e (firstBlockToSearch (self state_a)) 20) event_names"
    by (simp add: chain_e_def)
  have hm: "list_all (has_match (creates_seen chain_e 20 state_a))
               (fetched chain_e (firstBlockToSearch (self state_a)) 20 ''NewSponsor'')"
    by (simp add: creates_seen_def has_match_append state_a(2) chain_e_def has_match_def raw_def)
  note u = update_success[OF state_a(5) h t aa hm]
  show "fst (update chain_e state_a) = None" by (rule u(1))
  show "store (snd (update chain_e state_a)) (createEvents (self state_a)) =
     store state_a (createEvents (self state_a)) @
       map (mk_record create_keys) (fetched chain_e 11 20 ''PositionCreated'')"
    unfolding u(5) appended_plain[OF state_a(5) create_in_plain] by (simp add: state_a(2))
qed

theorem C9_sequences_sorted_witness:
  "truthful_calls example_calls (constructor 0) \<and>
   perform example_calls (constructor 0) = Some (snd (update chain_e state_a)) \<and>
   map blockNumber (store (snd (update chain_e state_a))
      (getAllCreateEvents (snd (update chain_e state_a)))) = [5, 15] \<and>
   list_all (\<lambda>get. sorted (map blockNumber (store (snd (update chain_e state_a))
      (get (snd (update chain_e state_a)))))) accessors"
proof -
  have ua: "update chain_a (constructor 0) = (None, state_a)"
    using state_a(1) unfolding state_a_def by (cases "update chain_a (constructor 0)") simp
  define s2 where "s2 = snd (update chain_e state_a)"
  have ue: "update chain_e state_a = (None, s2)"
    unfolding s2_def using state_a_chain_e(1) by (cases "update chain_e state_a") simp
  have "perform example_calls (constructor 0) = Some s2"
    unfolding example_calls_def by (simp add: ua ue)
  then have p: "perform example_calls (constructor 0) = Some (snd (update chain_e state_a))"
    unfolding s2_def .
  have "truthful_calls example_calls (constructor 0) =
          (truthful chain_a (constructor 0) \<and> truthful chain_e state_a)"
    unfolding example_calls_def state_a_def by simp
  moreover have "truthful chain_a (constructor 0)" by (rule truthful_chain_a) simp
  moreover have "truthful chain_e state_a" by (rule truthful_chain_e) (simp add: state_a(2))
  ultimately have t: "truthful_calls example_calls (constructor 0)" by simp
  have c: "map blockNumber (store (snd (update chain_e state_a))
      (getAllCreateEvents (snd (update chain_e state_a)))) = [5, 15]"
  proof -
    have f: "map blockNumber (fetched chain_e 11 20 ''PositionCreated'') = [15]"
      by (simp add: chain_e_def raw_def)
    show ?thesis
      by (simp add: getAllCreateEvents_def update_refs state_a_chain_e(2) state_a_store
          comp_def f raw_def)
  qed
  from C9_sequences_sorted[OF p t] p t c show ?thesis by simp
qed

theorem C9_failed_pass_breaks_order:
  "truthful (rejecting ''NewSponsor'' chain_a) (constructor 0) \<and>
   fst (update (rejecting ''NewSponsor'' chain_a) (constructor 0)) \<noteq> None \<and>
   truthful chain_a state_r \<and>
   fst (update chain_a state_r) = None \<and>
   map blockNumber (store (snd (update chain_a state_r))
      (getAllLiquidationEvents (snd (update chain_a state_r)))) = [3, 6, 3, 6] \<and>
   \<not> sorted (map blockNumber (store (snd (update chain_a state_r))
      (getAllLiquidationEvents (snd (update chain_a state_r)))))"
proof -
  have h: "getBlockNumber chain_a = Inr 10" and t: "getCurrentTime chain_a = Inr 1010"
    by (simp_all add: chain_a_def)
  have aa: "list_all (answered chain_a (firstBlockToSearch (self state_r)) 10) event_names"
    by (simp add: chain_a_def)
  have hm: "list_all (has_match (creates_seen chain_a 10 state_r))
               (fetched chain_a (firstBlockToSearch (self state_r)) 10 ''NewSponsor'')"
    by (simp add: creates_seen_def has_match_append state_r(2) chain_a_def has_match_def raw_def)
  note u = update_success[OF state_r(3) h t aa hm]
  have "map blockNumber (store (snd (update chain_a state_r)) (liquidationEvents (self state_r))) =
        [3, 6, 3, 6]"
    unfolding u(5) appended_plain[OF state_r(3) liquidation_in_plain]
    by (simp add: state_r(6) state_r(2) chain_a_def raw_def comp_def)
  then have l: "map blockNumber (store (snd (update chain_a state_r))
      (getAllLiquidationEvents (snd (update chain_a state_r)))) = [3, 6, 3, 6]"
    by (simp add: getAllLiquidationEvents_def update_refs)
  have t1: "truthful (rejecting ''NewSponsor'' chain_a) (constructor 0)"
    by (rule truthful_rejecting, rule truthful_chain_a) simp
  have t2: "truthful chain_a state_r"
    by (rule truthful_chain_a) (simp add: state_r(2))
  from l t1 t2 u(1) state_r(1) show ?thesis by simp
qed

subsection \<open>The cursor (C3)\<close>

lemma cursor_trace_not_Nil [simp]: "cursor_trace chs s \<noteq> []"
  by (cases chs) simp_all

lemma synchronize_trace:
  assumes "wf s" and "perform (map Synchronize chs) s = Some s'"
  shows "cursor_trace chs s = firstBlockToSearch (self s) # map (\<lambda>ch. height ch + 1) chs \<and>
         firstBlockToSearch (self s') = last (cursor_trace chs s) \<and>
         requests s' = requests s @ scans (cursor_trace chs s) chs"
  using assms
proof (induction chs arbitrary: s)
  case Nil
  then show ?case by (simp add: scans_def)
next
  case (Cons ch chs)
  from Cons.prems(2) obtain s1 where u: "update ch s = (None, s1)"
    and p: "perform (map Synchronize chs) s1 = Some s'"
    by (auto split: prod.splits option.splits)
  from update_ok[OF u Cons.prems(1)] obtain h where h: "getBlockNumber ch = Inr h"
    and c1: "firstBlockToSearch (self s1) = h + 1"
    and rq: "requests s1 = requests s @ map (request_of s h) event_names"
    by auto
  have hh: "height ch = h" by (simp add: height_def h)
  have s1: "snd (update ch s) = s1" using u by simp
  have wf1: "wf s1" using wf_update[OF Cons.prems(1), of ch] s1 by simp
  note ih = Cons.IH[OF wf1 p]
  from ih have t: "cursor_trace (ch # chs) s =
      firstBlockToSearch (self s) # map (\<lambda>ch. height ch + 1) (ch # chs)"
    by (simp add: s1 c1 hh)
  from ih have l: "firstBlockToSearch (self s') = last (cursor_trace (ch # chs) s)"
    by (simp add: s1)
  from ih have r: "requests s' = requests s @ scans (cursor_trace (ch # chs) s) (ch # chs)"
    by (simp add: s1 rq scans_def request_of_def[abs_def] hh)
  from t l r show ?case by blast
qed

lemma sorted_cursors:
  assumes "sorted (map height chs)"
    and "\<forall>ch \<in> set (take 1 chs). c \<le> height ch + 1"
  shows "sorted (c # map (\<lambda>ch. height ch + 1) chs)"
proof (cases chs)
  case Nil
  then show ?thesis by simp
next
  case (Cons ch chs')
  from assms(1) have "sorted (map (\<lambda>ch. height ch + 1) chs)"
    by (induction chs) (auto)
  moreover from assms(2) Cons have first: "c \<le> height ch + 1" by simp
  moreover from assms(1) Cons have "\<forall>x \<in> set chs'. height ch \<le> height x" by simp
  ultimately show ?thesis using Cons by fastforce
qed

lemma scanned_Cons:
  "scanned name (cursor_trace (ch # chs) s) (ch # chs) =
     fetched ch (firstBlockToSearch (self s)) (height ch) name @
     scanned name (cursor_trace chs (snd (update ch s))) chs"
  by (simp add: scanned_def)

lemma scanned_Nil [simp]: "scanned name cs [] = []"
  by (simp add: scanned_def)

lemma correlate_append_new:
  assumes "has_match xs e"
  shows "correlate (xs @ ys) e = correlate xs e"
proof -
  from assms have "filter (\<lambda>c. blockNumber c = blockNumber e) xs \<noteq> []"
    by (auto simp: has_match_def filter_empty_conv)
  then show ?thesis by (simp add: correlate_def)
qed

lemma perform_refs:
  assumes "perform (map Synchronize chs) s = Some s'"
  shows "array_refs (self s') = array_refs (self s)"
  using assms
proof (induction chs arbitrary: s)
  case Nil
  then show ?case by simp
next
  case (Cons ch chs)
  from Cons.prems obtain s1 where u: "update ch s = (None, s1)"
    and p: "perform (map Synchronize chs) s1 = Some s'"
    by (auto split: prod.splits option.splits)
  have "array_refs (self s1) = array_refs (self s)"
    using update_grows(1)[of ch s] u by simp
  with Cons.IH[OF p] show ?case by simp
qed

lemma synchronize_plain:
  assumes "wf s" and "perform (map Synchronize chs) s = Some s'"
    and "(name, field, keys) \<in> set plain_kinds"
  shows "field (self s') = field (self s) \<and>
         store s' (field (self s)) =
           store s (field (self s)) @
             map (mk_record keys) (scanned name (cursor_trace chs s) chs)"
  using assms(1,2)
proof (induction chs arbitrary: s)
  case Nil
  then show ?case by simp
next
  case (Cons ch chs)
  from Cons.prems(2) obtain s1 where u: "update ch s = (None, s1)"
    and p: "perform (map Synchronize chs) s1 = Some s'"
    by (auto split: prod.splits option.splits)
  from update_ok[OF u Cons.prems(1)] obtain h where h: "getBlockNumber ch = Inr h"
    and st: "\<And>q. store s1 q = store s q @ appended ch h s q"
    by auto
  have hh: "height ch = h" by (simp add: height_def h)
  have s1: "snd (update ch s) = s1" using u by simp
  have wf1: "wf s1" using wf_update[OF Cons.prems(1), of ch] s1 by simp
  have f1: "field (self s1) = field (self s)"
    using plain_field_update[OF assms(3), of ch s] s1 by simp
  note ih = Cons.IH[OF wf1 p]
  from ih show ?case
    unfolding scanned_Cons s1 f1
    by (simp add: st appended_plain[OF Cons.prems(1) assms(3)] hh)
qed

lemma synchronize_newSponsor:
  assumes "wf s" and "perform (map Synchronize chs) s = Some s'"
  shows "store s' (newSponsorEvents (self s)) =
           store s (newSponsorEvents (self s)) @
             map (correlate (store s' (createEvents (self s))))
               (scanned ''NewSponsor'' (cursor_trace chs s) chs)"
  using assms
proof (induction chs arbitrary: s)
  case Nil
  then show ?case by simp
next
  case (Cons ch chs)
  from Cons.prems(2) obtain s1 where u: "update ch s = (None, s1)"
    and p: "perform (map Synchronize chs) s1 = Some s'"
    by (auto split: prod.splits option.splits)
  from update_ok[OF u Cons.prems(1)] obtain h where h: "getBlockNumber ch = Inr h"
    and st: "\<And>q. store s1 q = store s q @ appended ch h s q"
    and hm: "list_all (has_match (creates_seen ch h s))
               (fetched ch (firstBlockToSearch (self s)) h ''NewSponsor'')"
    by auto
  have hh: "height ch = h" by (simp add: height_def h)
  have s1: "snd (update ch s) = s1" using u by simp
  have wf1: "wf s1" using wf_update[OF Cons.prems(1), of ch] s1 by simp
  have r1: "newSponsorEvents (self s1) = newSponsorEvents (self s)"
    "createEvents (self s1) = createEvents (self s)"
    using update_refs[of ch s] s1 by simp_all
  have c1: "store s1 (createEvents (self s)) = creates_seen ch h s"
    by (simp add: st appended_plain[OF Cons.prems(1) create_in_plain] creates_seen_def)
  from synchronize_plain[OF wf1 p create_in_plain]
  obtain X where c': "store s' (createEvents (self s)) = creates_seen ch h s @ X"
    by (simp add: r1 c1)
  have n1: "store s1 (newSponsorEvents (self s)) =
        store s (newSponsorEvents (self s)) @
          map (correlate (creates_seen ch h s))
            (fetched ch (firstBlockToSearch (self s)) h ''NewSponsor'')"
    using hm
    by (simp add: st appended_newSponsor[OF Cons.prems(1)] newSponsor_appended_def
        takeWhile_list_all)
  have m: "map (correlate (creates_seen ch h s))
            (fetched ch (firstBlockToSearch (self s)) h ''NewSponsor'') =
           map (correlate (creates_seen ch h s @ X))
            (fetched ch (firstBlockToSearch (self s)) h ''NewSponsor'')"
    using hm by (auto simp: list_all_iff correlate_append_new)
  note ih = Cons.IH[OF wf1 p, unfolded r1]
  show ?case
    unfolding scanned_Cons s1 ih n1 m c' hh by simp
qed

lemma cursors_sorted_first:
  assumes "sorted (c # map (\<lambda>ch. height ch + 1) chs)"
  shows "\<forall>ch \<in> set (take 1 chs). c \<le> height ch + 1"
  using assms by (cases chs) auto

text \<open>
  Claim C3, as amended. Take any sequence of calls of \<^verbatim>\<open>update\<close> that all succeed,
  at heights below \<open>2 ^ 53\<close>. Each call issues its twelve requests, one for every kind,
  from the cursor it finds to the height the chain reports, both ends included, appends
  to the array of each kind the records of the events the chain answered to that
  request (for a NewSponsor event, with the amounts of the first cached PositionCreated
  record of its block), and leaves the cursor at that height plus one: the next call
  starts at the block after the last one scanned. When the heights do not decrease, the
  cursor never decreases if and only if the first height is not below the block before
  the starting cursor: a client constructed with a starting block above the height of
  the chain plus one moves its cursor back at its first call.
\<close>

theorem C3_cursor_advances:
  assumes "wf s" and "perform (map Synchronize chs) s = Some s'"
    and "list_all (\<lambda>ch. height ch < 2 ^ 53) chs"
  shows "cursor_trace chs s = firstBlockToSearch (self s) # map (\<lambda>ch. height ch + 1) chs \<and>
         firstBlockToSearch (self s') = last (cursor_trace chs s) \<and>
         requests s' = requests s @ scans (cursor_trace chs s) chs \<and>
         (\<forall>(name, field, keys) \<in> set plain_kinds.
            store s' (field (self s')) =
              store s (field (self s)) @
                map (mk_record keys) (scanned name (cursor_trace chs s) chs)) \<and>
         store s' (getAllNewSponsorEvents s') =
           store s (getAllNewSponsorEvents s) @
             map (correlate (store s' (getAllCreateEvents s')))
               (scanned ''NewSponsor'' (cursor_trace chs s) chs) \<and>
         (sorted (map height chs) \<longrightarrow>
          (sorted (cursor_trace chs s) \<longleftrightarrow>
           (\<forall>ch \<in> set (take 1 chs). firstBlockToSearch (self s) \<le> height ch + 1)))"
proof -
  note t = synchronize_trace[OF assms(1,2)]
  have m: "sorted (cursor_trace chs s)"
    if "sorted (map height chs)"
      and "\<forall>ch \<in> set (take 1 chs). firstBlockToSearch (self s) \<le> height ch + 1"
    using sorted_cursors[OF that] t by simp
  have m': "\<forall>ch \<in> set (take 1 chs). firstBlockToSearch (self s) \<le> height ch + 1"
    if "sorted (cursor_trace chs s)"
    using cursors_sorted_first[of "firstBlockToSearch (self s)" chs] that t by simp
  have p: "store s' (field (self s')) =
              store s (field (self s)) @
                map (mk_record keys) (scanned name (cursor_trace chs s) chs)"
    if "(name, field, keys) \<in> set plain_kinds" for name field keys
    using synchronize_plain[OF assms(1,2) that] by simp
  have r: "newSponsorEvents (self s') = newSponsorEvents (self s)"
    "createEvents (self s') = createEvents (self s)"
    using perform_refs[OF assms(2)] by (simp_all add: array_refs_def)
  have n: "store s' (getAllNewSponsorEvents s') =
           store s (getAllNewSponsorEvents s) @
             map (correlate (store s' (getAllCreateEvents s')))
               (scanned ''NewSponsor'' (cursor_trace chs s) chs)"
    using synchronize_newSponsor[OF assms(1,2)]
    by (simp add: getAllNewSponsorEvents_def getAllCreateEvents_def r)
  from p have "\<forall>(name, field, keys) \<in> set plain_kinds.
            store s' (field (self s')) =
              store s (field (self s)) @
                map (mk_record keys) (scanned name (cursor_trace chs s) chs)"
    by blast
  with t m m' n show ?thesis by blast
qed

theorem C3_cursor_advances_witness:
  "perform (map Synchronize [chain_a, chain_e]) (constructor 0) =
     Some (snd (update chain_e state_a)) \<and>
   map height [chain_a, chain_e] = [10, 20] \<and>
   cursor_trace [chain_a, chain_e] (constructor 0) = [0, 11, 21] \<and>
   sorted (cursor_trace [chain_a, chain_e] (constructor 0)) \<and>
   firstBlockToSearch (self (snd (update chain_e state_a))) = 21 \<and>
   requests (snd (update chain_e state_a)) =
     map (\<lambda>name. (name, 0, 10)) event_names @ map (\<lambda>name. (name, 11, 20)) event_names \<and>
   map blockNumber (scanned ''PositionCreated'' [0, 11, 21] [chain_a, chain_e]) = [5, 15] \<and>
   map blockNumber (store (snd (update chain_e state_a))
     (getAllCreateEvents (snd (update chain_e state_a)))) = [5, 15] \<and>
   map blockNumber (store (snd (update chain_e state_a))
     (getAllNewSponsorEvents (snd (update chain_e state_a)))) = [5, 15]"
proof -
  have ua: "update chain_a (constructor 0) = (None, state_a)"
    using state_a(1) unfolding state_a_def by (cases "update chain_a (constructor 0)") simp
  define s2 where "s2 = snd (update chain_e state_a)"
  have ue: "update chain_e state_a = (None, s2)"
    unfolding s2_def using state_a_chain_e(1) by (cases "update chain_e state_a") simp
  have "perform (map Synchronize [chain_a, chain_e]) (constructor 0) = Some s2"
    by (simp add: ua ue)
  then have p: "perform (map Synchronize [chain_a, chain_e]) (constructor 0) =
     Some (snd (update chain_e state_a))"
    unfolding s2_def .
  have hs: "map height [chain_a, chain_e] = [10, 20]"
    by (simp add: chain_a_def chain_e_def)
  have ha: "height chain_a = 10" and he: "height chain_e = 20"
    by (simp_all add: chain_a_def chain_e_def)
  have safe: "list_all (\<lambda>ch. height ch < 2 ^ 53) [chain_a, chain_e]"
    by (simp add: ha he)
  have mono: "sorted (map height [chain_a, chain_e])"
    "\<forall>ch \<in> set (take 1 [chain_a, chain_e]).
       firstBlockToSearch (self (constructor 0)) \<le> height ch + 1"
    by (simp_all add: ha he)
  have sc: "map blockNumber (scanned ''PositionCreated'' [0, 11, 21] [chain_a, chain_e]) = [5, 15]"
    "map blockNumber (scanned ''NewSponsor'' [0, 11, 21] [chain_a, chain_e]) = [5, 15]"
    by (simp_all add: scanned_def ha he chain_a_def chain_e_def raw_def)
  note c3 = C3_cursor_advances[OF wf_constructor p safe]
  from c3 have tr: "cursor_trace [chain_a, chain_e] (constructor 0) = [0, 11, 21]"
    by (simp add: ha he)
  from c3 have "\<forall>(name, field, keys) \<in> set plain_kinds.
            store (snd (update chain_e state_a)) (field (self (snd (update chain_e state_a)))) =
              store (constructor 0) (field (self (constructor 0))) @
                map (mk_record keys)
                  (scanned name (cursor_trace [chain_a, chain_e] (constructor 0))
                     [chain_a, chain_e])"
    by blast
  from bspec[OF this create_in_plain]
  have cr: "map blockNumber (store (snd (update chain_e state_a))
     (getAllCreateEvents (snd (update chain_e state_a)))) = [5, 15]"
    unfolding tr by (simp add: getAllCreateEvents_def sc comp_def)
  from c3 have "store (snd (update chain_e state_a))
       (getAllNewSponsorEvents (snd (update chain_e state_a))) =
     store (constructor 0) (getAllNewSponsorEvents (constructor 0)) @
       map (correlate (store (snd (update chain_e state_a))
              (getAllCreateEvents (snd (update chain_e state_a)))))
         (scanned ''NewSponsor'' (cursor_trace [chain_a, chain_e] (constructor 0))
            [chain_a, chain_e])"
    by blast
  then have ns: "map blockNumber (store (snd (update chain_e state_a))
     (getAllNewSponsorEvents (snd (update chain_e state_a)))) = [5, 15]"
    unfolding tr by (simp add: getAllNewSponsorEvents_def sc comp_def)
  from c3 mono hs p sc(1) cr ns show ?thesis
    by (simp add: scans_def ha he)
qed

text \<open>
  A client constructed with the starting block 50, on a chain of height 10: the call
  succeeds, requests the blocks from 50 to 10, and moves the cursor from 50 back to 11.
\<close>

theorem C3_cursor_moves_back:
  "perform (map Synchronize [chain_a]) (constructor 50) =
     Some (snd (update chain_a (constructor 50))) \<and>
   map height [chain_a] = [10] \<and>
   firstBlockToSearch (self (constructor 50)) = 50 \<and>
   firstBlockToSearch (self (snd (update chain_a (constructor 50)))) = 11 \<and>
   cursor_trace [chain_a] (constructor 50) = [50, 11] \<and>
   \<not> sorted (cursor_trace [chain_a] (constructor 50)) \<and>
   requests (snd (update chain_a (constructor 50))) = map (\<lambda>name. (name, 50, 10)) event_names"
proof -
  have h: "getBlockNumber chain_a = Inr 10" and t: "getCurrentTime chain_a = Inr 1010"
    by (simp_all add: chain_a_def)
  have c: "firstBlockToSearch (self (constructor 50)) = 50" by (simp add: constructor_def)
  have aa: "list_all (answered chain_a (firstBlockToSearch (self (constructor 50))) 10) event_names"
    by (simp add: chain_a_def)
  have "fetched chain_a 50 10 ''NewSponsor'' = []"
    by (simp add: chain_a_def raw_def)
  then have hm: "list_all (has_match (creates_seen chain_a 10 (constructor 50)))
               (fetched chain_a (firstBlockToSearch (self (constructor 50))) 10 ''NewSponsor'')"
    by (simp add: c)
  note u = update_success[OF wf_constructor h t aa hm]
  define s1 where "s1 = snd (update chain_a (constructor 50))"
  have u1: "update chain_a (constructor 50) = (None, s1)"
    unfolding s1_def using u(1) by (cases "update chain_a (constructor 50)") simp
  have p: "perform (map Synchronize [chain_a]) (constructor 50) = Some s1"
    by (simp add: u1)
  have c1: "firstBlockToSearch (self s1) = 11" unfolding s1_def u(2) by simp
  have rq: "requests s1 = map (\<lambda>name. (name, 50, 10)) event_names"
    unfolding s1_def u(4) by (simp add: request_of_def[abs_def] c)
  have hh: "height chain_a = 10" by (simp add: chain_a_def)
  have tr: "cursor_trace [chain_a] (constructor 50) = [50, 11]"
    using c c1 by (simp add: s1_def)
  from p c c1 rq hh tr show ?thesis
    unfolding s1_def by simp
qed

subsection \<open>What the accessors return (C4)\<close>

text \<open>
  Claim C4, as amended. An accessor returns the array the client itself pushes to, not
  a copy. A later call of \<^verbatim>\<open>update\<close> changes an array returned earlier only by
  appending: what the array held stays in place, in order, as a prefix; a call that
  succeeds appends to it the records of the events it fetched for that kind.
  \<^verbatim>\<open>clearState\<close> leaves the arrays returned earlier as they are, since it assigns new
  ones to the fields.
\<close>

theorem C4_returned_array_grows:
  "(\<exists>ys. store (snd (update ch s)) r = store s r @ ys) \<and>
   (wf s \<and> fst (update ch s) = None \<and> getBlockNumber ch = Inr h \<longrightarrow>
      (\<forall>(name, field, keys) \<in> set plain_kinds.
         store (snd (update ch s)) (field (self s)) =
           store s (field (self s)) @
             map (mk_record keys) (fetched ch (firstBlockToSearch (self s)) h name))) \<and>
   (r < next_ref s \<longrightarrow> store (clearState s) r = store s r)"
proof -
  have a: "\<exists>ys. store (snd (update ch s)) r = store s r @ ys" by (rule update_grows(3))
  have b: "\<forall>(name, field, keys) \<in> set plain_kinds.
         store (snd (update ch s)) (field (self s)) =
           store s (field (self s)) @
             map (mk_record keys) (fetched ch (firstBlockToSearch (self s)) h name)"
    if wf: "wf s" and ok: "fst (update ch s) = None" and h: "getBlockNumber ch = Inr h"
  proof clarify
    fix name field keys assume m: "(name, field, keys) \<in> set plain_kinds"
    from ok have u: "update ch s = (None, snd (update ch s))" by (cases "update ch s") simp
    from update_ok_store(1)[OF u wf h] appended_plain[OF wf m]
    show "store (snd (update ch s)) (field (self s)) =
           store s (field (self s)) @
             map (mk_record keys) (fetched ch (firstBlockToSearch (self s)) h name)"
      by simp
  qed
  have c: "store (clearState s) r = store s r" if "r < next_ref s"
    using that by (rule clearState_simps(6))
  from a b c show ?thesis by blast
qed

theorem C4_returned_array_witness:
  "wf (constructor 0) \<and> fst (update chain_a (constructor 0)) = None \<and>
   getBlockNumber chain_a = Inr 10 \<and>
   getAllLiquidationEvents (constructor 0) < next_ref (constructor 0) \<and>
   map blockNumber (store (snd (update chain_a (constructor 0)))
      (getAllLiquidationEvents (constructor 0))) = [3, 6] \<and>
   store (clearState (snd (update chain_a (constructor 0))))
      (getAllLiquidationEvents (constructor 0)) =
   store (snd (update chain_a (constructor 0))) (getAllLiquidationEvents (constructor 0))"
proof -
  have h: "getBlockNumber chain_a = Inr 10" by (simp add: chain_a_def)
  have lt: "getAllLiquidationEvents (constructor 0) < next_ref (snd (update chain_a (constructor 0)))"
    by (simp add: update_grows(2) getAllLiquidationEvents_def constructor_def)
  from C4_returned_array_grows[of chain_a "constructor 0" "getAllLiquidationEvents (constructor 0)" 10]
    wf_constructor state_a(1) h
  have "\<forall>(name, field, keys) \<in> set plain_kinds.
         store (snd (update chain_a (constructor 0))) (field (self (constructor 0))) =
           store (constructor 0) (field (self (constructor 0))) @
             map (mk_record keys)
               (fetched chain_a (firstBlockToSearch (self (constructor 0))) 10 name)"
    by blast
  from bspec[OF this liquidation_in_plain]
  have l: "map blockNumber (store (snd (update chain_a (constructor 0)))
      (getAllLiquidationEvents (constructor 0))) = [3, 6]"
    by (simp add: getAllLiquidationEvents_def chain_a_def raw_def)
  from C4_returned_array_grows[of chain_a "snd (update chain_a (constructor 0))"
      "getAllLiquidationEvents (constructor 0)" 10] lt
  have "store (clearState (snd (update chain_a (constructor 0))))
      (getAllLiquidationEvents (constructor 0)) =
     store (snd (update chain_a (constructor 0))) (getAllLiquidationEvents (constructor 0))"
    by blast
  with l wf_constructor state_a(1) h show ?thesis
    by (simp add: getAllLiquidationEvents_def constructor_def)
qed

theorem C4_returned_array_is_mutated:
  "length (store (constructor 0) (getAllLiquidationEvents (constructor 0))) = 0 \<and>
   fst (update chain_a (constructor 0)) = None \<and>
   length (store (snd (update chain_a (constructor 0)))
      (getAllLiquidationEvents (constructor 0))) = 2"
proof -
  have h: "getBlockNumber chain_a = Inr 10" and t: "getCurrentTime chain_a = Inr 1010"
    by (simp_all add: chain_a_def)
  have u: "update chain_a (constructor 0) = (None, snd (update chain_a (constructor 0)))"
    using state_a(1) by (cases "update chain_a (constructor 0)") simp
  from update_ok_store(1)[OF u wf_constructor h, of "liquidationEvents (self (constructor 0))"]
    appended_plain[OF wf_constructor liquidation_in_plain, of chain_a 10]
  have "length (store (snd (update chain_a (constructor 0)))
      (liquidationEvents (self (constructor 0)))) = 2"
    by (simp add: chain_a_def raw_def)
  with state_a(1) show ?thesis by (simp add: getAllLiquidationEvents_def)
qed

section \<open>The run functions: facts and claims\<close>

subsection \<open>Allowance maintenance (C7)\<close>

lemma approve_trace:
  "trace (snd (approve env token owner spender amount w)) =
     trace w @ [Approve token owner spender amount]"
  by (simp add: approve_def split: sum.splits prod.splits)

lemma approvals_append [simp]: "approvals (xs @ ys) = approvals xs @ approvals ys"
  by (simp add: approvals_def)

lemma approvals_simps [simp]:
  "approvals [] = []"
  "approvals (Approve token owner spender amount # tr) =
     Approve token owner spender amount # approvals tr"
  "approvals (LogInfo m # tr) = approvals tr"
  by (simp_all add: approvals_def is_approve_def)





subsection \<open>An error in the loop (C1)\<close>

lemma quiet_ret [simp]: "quiet (ret a)"
  by (simp add: quiet_def ret_def)

lemma quiet_throw [simp]: "quiet (throw e)"
  by (simp add: quiet_def throw_def)

lemma quiet_await [simp]: "quiet (await r)"
  by (simp add: quiet_def await_def)

lemma quiet_construct [simp]: "quiet (construct r)"
  by (cases r) (simp_all add: construct_def)

lemma quiet_emit_info [simp]: "quiet (emit (LogInfo m))"
  by (simp add: quiet_def emit_def loop_actions_def is_loop_action_def)

lemma quiet_allowance [simp]: "quiet (allowance env token owner spender)"
  by (simp add: quiet_def allowance_def split: option.splits)

lemma quiet_approve [simp]: "quiet (approve env token owner spender amount)"
  by (simp add: quiet_def approve_trace loop_actions_def is_loop_action_def)

lemma quiet_then_do [simp]:
  assumes "quiet m" and "\<And>a. quiet (f a)"
  shows "quiet (then_do m f)"
  unfolding quiet_def
proof
  fix w
  obtain r w' where m: "m w = (r, w')" by (cases "m w")
  from assms(1) m have 1: "loop_actions (trace w') = loop_actions (trace w)"
    by (auto simp: quiet_def dest: spec[of _ w])
  show "loop_actions (trace (snd (then_do m f w))) = loop_actions (trace w)"
  proof (cases r)
    case (Inl e)
    then show ?thesis using m 1 by (simp add: then_do_def)
  next
    case (Inr a)
    from assms(2)[of a] have "loop_actions (trace (snd (f a w'))) = loop_actions (trace w')"
      by (simp add: quiet_def)
    then show ?thesis using m 1 Inr by (simp add: then_do_def)
  qed
qed

lemma quiet_if [simp]: "quiet m \<Longrightarrow> quiet n \<Longrightarrow> quiet (if b then m else n)"
  by simp

lemma quiet_approve_if_low [simp]: "quiet (approve_if_low env token owner spender a message)"
  by (simp add: approve_if_low_def)

lemma quiet_ensureAllowance [simp]: "quiet (ensureAllowance env token owner spender message)"
  by (simp add: ensureAllowance_def)

lemma quiet_disputer_setup: "quiet (disputer_setup env address config)"
  by (simp add: disputer_setup_def)

lemma quiet_liquidator_setup: "quiet (liquidator_setup env address config)"
  by (simp add: liquidator_setup_def)

lemma poll_error:
  assumes "\<forall>j<n. act (k + j) = None \<and> claim (k + j) = None"
    and "first_error act claim (k + n) = Some e"
    and "n < fuel"
  shows "poll fuel name act claim True pollingDelay k w =
           Some (Inl e, w\<lparr>trace := trace w @
                   concat (map (iteration name pollingDelay) [k..<k + n]) @
                   failing_iteration name act (k + n)\<rparr>)"
  using assms
proof (induction n arbitrary: fuel k w)
  case 0
  then obtain fuel' where f: "fuel = Suc fuel'" by (cases fuel) auto
  from "0.prems"(2) show ?case
    unfolding f
    by (auto simp: first_error_def failing_iteration_def split: option.splits)
next
  case (Suc n)
  then obtain fuel' where f: "fuel = Suc fuel'" by (cases fuel) auto
  from Suc.prems(1) have k0: "act k = None" "claim k = None" by (auto dest: spec[of _ 0])
  have 1: "\<forall>j<n. act (Suc k + j) = None \<and> claim (Suc k + j) = None"
  proof (intro allI impI)
    fix j assume "j < n"
    then have "Suc j < Suc n" by simp
    with Suc.prems(1) have "act (k + Suc j) = None \<and> claim (k + Suc j) = None" by blast
    then show "act (Suc k + j) = None \<and> claim (Suc k + j) = None" by simp
  qed
  have 2: "first_error act claim (Suc k + n) = Some e" using Suc.prems(2) by simp
  have 3: "n < fuel'" using Suc.prems(3) f by simp
  let ?w' = "w\<lparr>trace := trace w @ iteration name pollingDelay k\<rparr>"
  have step: "poll fuel name act claim True pollingDelay k w =
              poll fuel' name act claim True pollingDelay (Suc k) ?w'"
    unfolding f by (simp add: k0 iteration_def)
  have up: "[k..<k + Suc n] = k # [Suc k..<Suc k + n]"
    by (simp add: upt_conv_Cons)
  show ?case
    unfolding step Suc.IH[OF 1 2 3] up by simp
qed

lemma run_on_error:
  assumes "prelude w = (Inr (), w1)"
    and "\<forall>j<k. act j = None \<and> claim j = None"
    and "first_error act claim k = Some e"
    and "k < fuel"
  shows "try_catch message (setup_then_poll prelude fuel name act claim True pollingDelay w) =
           Some (Inr (), w1\<lparr>trace := trace w1 @
                   concat (map (iteration name pollingDelay) [0..<k]) @
                   failing_iteration name act k @ [LogError message e, WaitForLogger]\<rparr>)"
proof -
  have "poll fuel name act claim True pollingDelay 0 w1 =
           Some (Inl e, w1\<lparr>trace := trace w1 @
                   concat (map (iteration name pollingDelay) [0..<0 + k]) @
                   failing_iteration name act (0 + k)\<rparr>)"
    by (rule poll_error) (use assms in simp_all)
  then show ?thesis
    using assms(1) by (simp add: try_catch_def setup_then_poll_def)
qed

lemma run_on_setup_failure:
  assumes "prelude w = (Inl e, w1)"
  shows "try_catch message (setup_then_poll prelude fuel name act claim shouldPoll pollingDelay w) =
           Some (Inr (), w1\<lparr>trace := trace w1 @ [LogError message e, WaitForLogger]\<rparr>)"
  using assms by (simp add: try_catch_def setup_then_poll_def)

lemma try_catch_never_raises:
  "try_catch message body = Some (r, w') \<Longrightarrow> r = Inr ()"
  by (auto simp: try_catch_def split: option.splits prod.splits sum.splits)

lemmas io_defs = then_do_def emit_def await_def ret_def throw_def construct_def account0_def
  ensureAllowance_def allowance_def approve_if_low_def approve_def

lemma setup_no_feed:
  assumes "getAccounts env = Inr accounts" and "emp_at env address = Inr emp"
    and "createPriceFeed env config = Inr None"
  shows "disputer_setup env address config w =
           (Inl (Error ''Price feed config is invalid''),
            w\<lparr>trace := trace w @ [LogInfo ''Disputer started'']\<rparr>)"
    and "liquidator_setup env address config w =
           (Inl (Error ''Price feed config is invalid''),
            w\<lparr>trace := trace w @ [LogInfo ''Liquidator started'']\<rparr>)"
  using assms
  by (simp_all add: disputer_setup_def liquidator_setup_def then_do_def emit_def await_def throw_def)

lemma setup_no_bot:
  assumes "getAccounts env = Inr accounts" and "emp_at env address = Inr emp"
    and "createPriceFeed env config = Inr (Some feed)"
    and "new_ExpiringMultiPartyClient env = None" and "new_GasEstimator env = None"
  shows "new_Disputer env = Some e \<Longrightarrow>
         disputer_setup env address config w =
           (Inl e, w\<lparr>trace := trace w @ [LogInfo ''Disputer started'']\<rparr>)"
    and "new_Liquidator env = Some e \<Longrightarrow>
         liquidator_setup env address config w =
           (Inl e, w\<lparr>trace := trace w @ [LogInfo ''Liquidator started'']\<rparr>)"
  using assms
  by (simp_all add: disputer_setup_def liquidator_setup_def then_do_def emit_def await_def
      throw_def ret_def construct_def)

lemma quiet_setup_trace:
  assumes "quiet m" and "m w = (r, w1)"
  shows "loop_actions (trace w1) = loop_actions (trace w)"
  using assms by (auto simp: quiet_def dest: spec[of _ w])

text \<open>
  Claim C1, as amended. The one \<^verbatim>\<open>try\<close> of \<^verbatim>\<open>run\<close> encloses the setup and the whole
  loop. When the setup has succeeded and iteration \<open>k\<close> is the first in which one of
  the two operations of the bot throws, the error leaves the loop and reaches the
  handler, which logs it and waits for the logger; then \<^verbatim>\<open>run\<close> returns normally, in
  continuous mode too. Before the error there are \<open>k\<close> whole iterations, each ended by
  its delay; after it there is neither a delay nor a further iteration, however long
  the loop could have run.
\<close>

theorem C1_error_ends_the_run:
  assumes "\<forall>j<k. act j = None \<and> queryAndWithdrawRewards env j = None"
    and "first_error act (queryAndWithdrawRewards env) k = Some e"
    and "k < fuel"
  shows "(act = queryAndDispute env \<and> disputer_setup env address config w = (Inr (), w1) \<longrightarrow>
            disputer_run fuel env address True pollingDelay config w =
              Some (Inr (), w1\<lparr>trace := trace w1 @
                      concat (map (iteration ''queryAndDispute'' pollingDelay) [0..<k]) @
                      failing_iteration ''queryAndDispute'' act k @
                      [LogError ''Disputer error'' e, WaitForLogger]\<rparr>)) \<and>
         (act = queryAndLiquidate env \<and> liquidator_setup env address config w = (Inr (), w1) \<longrightarrow>
            liquidator_run fuel env address True pollingDelay config w =
              Some (Inr (), w1\<lparr>trace := trace w1 @
                      concat (map (iteration ''queryAndLiquidate'' pollingDelay) [0..<k]) @
                      failing_iteration ''queryAndLiquidate'' act k @
                      [LogError ''Liquidator polling error'' e, WaitForLogger]\<rparr>))"
proof (intro conjI impI)
  assume a: "act = queryAndDispute env \<and> disputer_setup env address config w = (Inr (), w1)"
  then have s: "disputer_setup env address config w = (Inr (), w1)" by simp
  from run_on_error[where prelude = "disputer_setup env address config" and w = w, OF s assms] a
  show "disputer_run fuel env address True pollingDelay config w =
              Some (Inr (), w1\<lparr>trace := trace w1 @
                      concat (map (iteration ''queryAndDispute'' pollingDelay) [0..<k]) @
                      failing_iteration ''queryAndDispute'' act k @
                      [LogError ''Disputer error'' e, WaitForLogger]\<rparr>)"
    by (simp add: disputer_run_def)
next
  assume a: "act = queryAndLiquidate env \<and> liquidator_setup env address config w = (Inr (), w1)"
  then have s: "liquidator_setup env address config w = (Inr (), w1)" by simp
  from run_on_error[where prelude = "liquidator_setup env address config" and w = w, OF s assms] a
  show "liquidator_run fuel env address True pollingDelay config w =
              Some (Inr (), w1\<lparr>trace := trace w1 @
                      concat (map (iteration ''queryAndLiquidate'' pollingDelay) [0..<k]) @
                      failing_iteration ''queryAndLiquidate'' act k @
                      [LogError ''Liquidator polling error'' e, WaitForLogger]\<rparr>)"
    by (simp add: liquidator_run_def)
qed

lemma env_ok_fields [simp]:
  "MAX_UINT_VAL env_ok = 2 ^ 256 - 1"
  "getAccounts env_ok = Inr [''0xb07'']"
  "emp_at env_ok address = Inr address"
  "createPriceFeed env_ok config = Inr (Some config)"
  "new_ExpiringMultiPartyClient env_ok = None"
  "new_GasEstimator env_ok = None"
  "new_Disputer env_ok = None"
  "new_Liquidator env_ok = None"
  "collateralCurrency env_ok = Inr ''0xc011''"
  "tokenCurrency env_ok = Inr ''0x5177''"
  "token_at env_ok address = Inr address"
  "allowance_call env_ok token = None"
  "approve_call env_ok token owner spender amount table =
     Inr (''0x7a'', table((token, owner, spender) := amount))"
  "queryAndDispute env_ok k = None"
  "queryAndLiquidate env_ok k = None"
  "queryAndWithdrawRewards env_ok k = None"
  by (simp_all add: env_ok_def)

lemma disputer_setup_approves:
  assumes "getAccounts env = Inr [''0xb07'']" and "emp_at env ''0xe3'' = Inr ''0xe3''"
    and "createPriceFeed env ''cfg'' = Inr (Some ''cfg'')"
    and "new_ExpiringMultiPartyClient env = None" and "new_GasEstimator env = None"
    and "new_Disputer env = None"
    and "collateralCurrency env = Inr ''0xc011''" and "token_at env ''0xc011'' = Inr ''0xc011''"
    and "allowance_call env ''0xc011'' = None"
    and "approve_call env ''0xc011'' (Some ''0xb07'') ''0xe3'' (MAX_UINT_VAL env)
           (allowances world0) = Inr (tx, table)"
    and "0 < MAX_UINT_VAL env div 2"
  shows "fst (disputer_setup env ''0xe3'' ''cfg'' world0) = Inr ()"
    and "trace (snd (disputer_setup env ''0xe3'' ''cfg'' world0)) =
           [LogInfo ''Disputer started'',
            Approve ''0xc011'' (Some ''0xb07'') ''0xe3'' (MAX_UINT_VAL env),
            LogInfo ''Approved EMP to transfer unlimited collateral tokens'']"
proof -
  have a: "allowances world0 (''0xc011'', Some ''0xb07'', ''0xe3'') < MAX_UINT_VAL env div 2"
    "trace world0 = []"
    using assms(11) by (simp_all add: world0_def)
  show "fst (disputer_setup env ''0xe3'' ''cfg'' world0) = Inr ()"
    using assms(1-10) a by (simp add: disputer_setup_def io_defs)
  show "trace (snd (disputer_setup env ''0xe3'' ''cfg'' world0)) =
           [LogInfo ''Disputer started'',
            Approve ''0xc011'' (Some ''0xb07'') ''0xe3'' (MAX_UINT_VAL env),
            LogInfo ''Approved EMP to transfer unlimited collateral tokens'']"
    using assms(1-10) a by (simp add: disputer_setup_def io_defs)
qed

lemma setup_third_fails:
  "fst (disputer_setup env_third_fails ''0xe3'' ''cfg'' world0) = Inr ()"
  "trace (snd (disputer_setup env_third_fails ''0xe3'' ''cfg'' world0)) =
           [LogInfo ''Disputer started'',
            Approve ''0xc011'' (Some ''0xb07'') ''0xe3'' (2 ^ 256 - 1),
            LogInfo ''Approved EMP to transfer unlimited collateral tokens'']"
proof -
  have p: "getAccounts env_third_fails = Inr [''0xb07'']"
    "emp_at env_third_fails ''0xe3'' = Inr ''0xe3''"
    "createPriceFeed env_third_fails ''cfg'' = Inr (Some ''cfg'')"
    "new_ExpiringMultiPartyClient env_third_fails = None"
    "new_GasEstimator env_third_fails = None"
    "new_Disputer env_third_fails = None"
    "collateralCurrency env_third_fails = Inr ''0xc011''"
    "token_at env_third_fails ''0xc011'' = Inr ''0xc011''"
    "allowance_call env_third_fails ''0xc011'' = None"
    "approve_call env_third_fails ''0xc011'' (Some ''0xb07'') ''0xe3''
       (MAX_UINT_VAL env_third_fails) (allowances world0) =
     Inr (''0x7a'', (allowances world0)((''0xc011'', Some ''0xb07'', ''0xe3'') :=
       MAX_UINT_VAL env_third_fails))"
    "0 < MAX_UINT_VAL env_third_fails div 2"
    by (simp_all add: env_third_fails_def)
  have m: "MAX_UINT_VAL env_third_fails = 2 ^ 256 - 1" by (simp add: env_third_fails_def)
  note s = disputer_setup_approves[OF p]
  show "fst (disputer_setup env_third_fails ''0xe3'' ''cfg'' world0) = Inr ()" by (rule s(1))
  show "trace (snd (disputer_setup env_third_fails ''0xe3'' ''cfg'' world0)) =
           [LogInfo ''Disputer started'',
            Approve ''0xc011'' (Some ''0xb07'') ''0xe3'' (2 ^ 256 - 1),
            LogInfo ''Approved EMP to transfer unlimited collateral tokens'']"
    unfolding s(2) m ..
qed

lemma setup_first_fails:
  "fst (disputer_setup env_first_fails ''0xe3'' ''cfg'' world0) = Inr ()"
  "trace (snd (disputer_setup env_first_fails ''0xe3'' ''cfg'' world0)) =
           [LogInfo ''Disputer started'',
            Approve ''0xc011'' (Some ''0xb07'') ''0xe3'' (2 ^ 256 - 1),
            LogInfo ''Approved EMP to transfer unlimited collateral tokens'']"
proof -
  have p: "getAccounts env_first_fails = Inr [''0xb07'']"
    "emp_at env_first_fails ''0xe3'' = Inr ''0xe3''"
    "createPriceFeed env_first_fails ''cfg'' = Inr (Some ''cfg'')"
    "new_ExpiringMultiPartyClient env_first_fails = None"
    "new_GasEstimator env_first_fails = None"
    "new_Disputer env_first_fails = None"
    "collateralCurrency env_first_fails = Inr ''0xc011''"
    "token_at env_first_fails ''0xc011'' = Inr ''0xc011''"
    "allowance_call env_first_fails ''0xc011'' = None"
    "approve_call env_first_fails ''0xc011'' (Some ''0xb07'') ''0xe3''
       (MAX_UINT_VAL env_first_fails) (allowances world0) =
     Inr (''0x7a'', (allowances world0)((''0xc011'', Some ''0xb07'', ''0xe3'') :=
       MAX_UINT_VAL env_first_fails))"
    "0 < MAX_UINT_VAL env_first_fails div 2"
    by (simp_all add: env_first_fails_def)
  have m: "MAX_UINT_VAL env_first_fails = 2 ^ 256 - 1" by (simp add: env_first_fails_def)
  note s = disputer_setup_approves[OF p]
  show "fst (disputer_setup env_first_fails ''0xe3'' ''cfg'' world0) = Inr ()" by (rule s(1))
  show "trace (snd (disputer_setup env_first_fails ''0xe3'' ''cfg'' world0)) =
           [LogInfo ''Disputer started'',
            Approve ''0xc011'' (Some ''0xb07'') ''0xe3'' (2 ^ 256 - 1),
            LogInfo ''Approved EMP to transfer unlimited collateral tokens'']"
    unfolding s(2) m ..
qed

theorem C1_error_ends_the_run_witness:
  "fst (disputer_setup env_third_fails ''0xe3'' ''cfg'' world0) = Inr () \<and>
   first_error (queryAndDispute env_third_fails) (queryAndWithdrawRewards env_third_fails) 2 =
     Some (Error ''boom'') \<and>
   outcome (disputer_run 7 env_third_fails ''0xe3'' True 10000 ''cfg'' world0) =
     Some (Inr (),
       [LogInfo ''Disputer started'',
        Approve ''0xc011'' (Some ''0xb07'') ''0xe3'' (2 ^ 256 - 1),
        LogInfo ''Approved EMP to transfer unlimited collateral tokens'',
        Call ''queryAndDispute'' 0, Call ''queryAndWithdrawRewards'' 0, Delay 10000,
        Call ''queryAndDispute'' 1, Call ''queryAndWithdrawRewards'' 1, Delay 10000,
        Call ''queryAndDispute'' 2,
        LogError ''Disputer error'' (Error ''boom''), WaitForLogger])"
proof -
  let ?env = env_third_fails
  define w1 where "w1 = snd (disputer_setup ?env ''0xe3'' ''cfg'' world0)"
  have s: "fst (disputer_setup ?env ''0xe3'' ''cfg'' world0) = Inr ()"
    and tr: "trace w1 = [LogInfo ''Disputer started'',
            Approve ''0xc011'' (Some ''0xb07'') ''0xe3'' (2 ^ 256 - 1),
            LogInfo ''Approved EMP to transfer unlimited collateral tokens'']"
    unfolding w1_def by (rule setup_third_fails)+
  from s have s': "disputer_setup ?env ''0xe3'' ''cfg'' world0 = (Inr (), w1)"
    unfolding w1_def by (cases "disputer_setup ?env ''0xe3'' ''cfg'' world0") simp
  have q: "\<forall>j<2. queryAndDispute ?env j = None \<and> queryAndWithdrawRewards ?env j = None"
    by (simp add: env_third_fails_def)
  have f: "first_error (queryAndDispute ?env) (queryAndWithdrawRewards ?env) 2 =
     Some (Error ''boom'')"
    by (simp add: first_error_def env_third_fails_def)
  have fi: "failing_iteration ''queryAndDispute'' (queryAndDispute ?env) 2 =
     [Call ''queryAndDispute'' 2]"
    by (simp add: failing_iteration_def env_third_fails_def)
  have up: "[0..<2] = [0, Suc 0]" by (simp add: upt_conv_Cons)
  from C1_error_ends_the_run[OF q f, of 7 "''0xe3''" "''cfg''" world0 w1 10000] s'
  have "disputer_run 7 ?env ''0xe3'' True 10000 ''cfg'' world0 =
              Some (Inr (), w1\<lparr>trace := trace w1 @
                      concat (map (iteration ''queryAndDispute'' 10000) [0..<2]) @
                      failing_iteration ''queryAndDispute'' (queryAndDispute ?env) 2 @
                      [LogError ''Disputer error'' (Error ''boom''), WaitForLogger]\<rparr>)"
    by simp
  then have "outcome (disputer_run 7 ?env ''0xe3'' True 10000 ''cfg'' world0) =
     Some (Inr (), trace w1 @
                      concat (map (iteration ''queryAndDispute'' 10000) [0..<2]) @
                      failing_iteration ''queryAndDispute'' (queryAndDispute ?env) 2 @
                      [LogError ''Disputer error'' (Error ''boom''), WaitForLogger])"
    by (simp add: outcome_def)
  with s f show ?thesis
    by (simp add: tr fi up iteration_def)
qed

theorem C1_loop_ends_at_first_error:
  "queryAndDispute env_first_fails 0 = Some (Error ''boom'') \<and>
   outcome (disputer_run 7 env_first_fails ''0xe3'' True 10000 ''cfg'' world0) =
     Some (Inr (),
       [LogInfo ''Disputer started'',
        Approve ''0xc011'' (Some ''0xb07'') ''0xe3'' (2 ^ 256 - 1),
        LogInfo ''Approved EMP to transfer unlimited collateral tokens'',
        Call ''queryAndDispute'' 0,
        LogError ''Disputer error'' (Error ''boom''), WaitForLogger])"
proof -
  let ?env = env_first_fails
  define w1 where "w1 = snd (disputer_setup ?env ''0xe3'' ''cfg'' world0)"
  have s: "fst (disputer_setup ?env ''0xe3'' ''cfg'' world0) = Inr ()"
    and tr: "trace w1 = [LogInfo ''Disputer started'',
            Approve ''0xc011'' (Some ''0xb07'') ''0xe3'' (2 ^ 256 - 1),
            LogInfo ''Approved EMP to transfer unlimited collateral tokens'']"
    unfolding w1_def by (rule setup_first_fails)+
  from s have s': "disputer_setup ?env ''0xe3'' ''cfg'' world0 = (Inr (), w1)"
    unfolding w1_def by (cases "disputer_setup ?env ''0xe3'' ''cfg'' world0") simp
  have q: "queryAndDispute ?env 0 = Some (Error ''boom'')"
    by (simp add: env_first_fails_def)
  have "poll 7 ''queryAndDispute'' (queryAndDispute ?env) (queryAndWithdrawRewards ?env)
          True 10000 0 w1 =
        Some (Inl (Error ''boom''), w1\<lparr>trace := trace w1 @ [Call ''queryAndDispute'' 0]\<rparr>)"
    by (simp add: q eval_nat_numeral)
  then have "outcome (disputer_run 7 ?env ''0xe3'' True 10000 ''cfg'' world0) =
     Some (Inr (), trace w1 @ [Call ''queryAndDispute'' 0,
        LogError ''Disputer error'' (Error ''boom''), WaitForLogger])"
    by (simp add: outcome_def disputer_run_def try_catch_def setup_then_poll_def s')
  with q show ?thesis by (simp add: tr)
qed

subsection \<open>A failure of the setup (C8)\<close>

text \<open>
  Claim C8, as amended. Every failure of the setup of \<^verbatim>\<open>run\<close> (a price feed that
  \<^verbatim>\<open>createPriceFeed\<close> could not make from the configuration, a constructor of the
  client or of the bot that throws, any rejected call before the loop) happens before
  the loop: no operation of the bot has been called and no delay awaited. The error
  does not reach the caller of \<^verbatim>\<open>run\<close>: the handler of \<^verbatim>\<open>run\<close> logs it, waits for the
  logger and \<^verbatim>\<open>run\<close> returns normally, as it does whenever it returns.
\<close>

theorem C8_setup_failure_is_logged:
  "(disputer_setup env address config w = (Inl e, w1) \<longrightarrow>
      disputer_run fuel env address shouldPoll pollingDelay config w =
        Some (Inr (), w1\<lparr>trace := trace w1 @ [LogError ''Disputer error'' e, WaitForLogger]\<rparr>) \<and>
      loop_actions (trace w1) = loop_actions (trace w)) \<and>
   (liquidator_setup env address config w = (Inl e, w1) \<longrightarrow>
      liquidator_run fuel env address shouldPoll pollingDelay config w =
        Some (Inr (), w1\<lparr>trace := trace w1 @
                [LogError ''Liquidator polling error'' e, WaitForLogger]\<rparr>) \<and>
      loop_actions (trace w1) = loop_actions (trace w)) \<and>
   (getAccounts env = Inr accounts \<and> emp_at env address = Inr emp \<and>
    createPriceFeed env config = Inr None \<longrightarrow>
      disputer_setup env address config w =
        (Inl (Error ''Price feed config is invalid''),
         w\<lparr>trace := trace w @ [LogInfo ''Disputer started'']\<rparr>) \<and>
      liquidator_setup env address config w =
        (Inl (Error ''Price feed config is invalid''),
         w\<lparr>trace := trace w @ [LogInfo ''Liquidator started'']\<rparr>)) \<and>
   (getAccounts env = Inr accounts \<and> emp_at env address = Inr emp \<and>
    createPriceFeed env config = Inr (Some feed) \<and>
    new_ExpiringMultiPartyClient env = None \<and> new_GasEstimator env = None \<and>
    new_Disputer env = Some e \<and> new_Liquidator env = Some e' \<longrightarrow>
      disputer_setup env address config w =
        (Inl e, w\<lparr>trace := trace w @ [LogInfo ''Disputer started'']\<rparr>) \<and>
      liquidator_setup env address config w =
        (Inl e', w\<lparr>trace := trace w @ [LogInfo ''Liquidator started'']\<rparr>)) \<and>
   (disputer_run fuel env address shouldPoll pollingDelay config w = Some (r, w') \<longrightarrow>
      r = Inr ()) \<and>
   (liquidator_run fuel env address shouldPoll pollingDelay config w = Some (r, w') \<longrightarrow>
      r = Inr ())"
proof (intro conjI impI)
  assume a: "disputer_setup env address config w = (Inl e, w1)"
  show "disputer_run fuel env address shouldPoll pollingDelay config w =
        Some (Inr (), w1\<lparr>trace := trace w1 @ [LogError ''Disputer error'' e, WaitForLogger]\<rparr>)"
    unfolding disputer_run_def
    by (rule run_on_setup_failure[where prelude = "disputer_setup env address config", OF a])
  show "loop_actions (trace w1) = loop_actions (trace w)"
    by (rule quiet_setup_trace[OF quiet_disputer_setup a])
next
  assume a: "liquidator_setup env address config w = (Inl e, w1)"
  show "liquidator_run fuel env address shouldPoll pollingDelay config w =
        Some (Inr (), w1\<lparr>trace := trace w1 @
                [LogError ''Liquidator polling error'' e, WaitForLogger]\<rparr>)"
    unfolding liquidator_run_def
    by (rule run_on_setup_failure[where prelude = "liquidator_setup env address config", OF a])
  show "loop_actions (trace w1) = loop_actions (trace w)"
    by (rule quiet_setup_trace[OF quiet_liquidator_setup a])
next
  assume a: "getAccounts env = Inr accounts \<and> emp_at env address = Inr emp \<and>
    createPriceFeed env config = Inr None"
  then show "disputer_setup env address config w =
        (Inl (Error ''Price feed config is invalid''),
         w\<lparr>trace := trace w @ [LogInfo ''Disputer started'']\<rparr>)"
    and "liquidator_setup env address config w =
        (Inl (Error ''Price feed config is invalid''),
         w\<lparr>trace := trace w @ [LogInfo ''Liquidator started'']\<rparr>)"
    using setup_no_feed[of env accounts address emp config w] by simp_all
next
  assume a: "getAccounts env = Inr accounts \<and> emp_at env address = Inr emp \<and>
    createPriceFeed env config = Inr (Some feed) \<and>
    new_ExpiringMultiPartyClient env = None \<and> new_GasEstimator env = None \<and>
    new_Disputer env = Some e \<and> new_Liquidator env = Some e'"
  then show "disputer_setup env address config w =
        (Inl e, w\<lparr>trace := trace w @ [LogInfo ''Disputer started'']\<rparr>)"
    using setup_no_bot(1)[of env accounts address emp config feed e w] by simp
  from a show "liquidator_setup env address config w =
        (Inl e', w\<lparr>trace := trace w @ [LogInfo ''Liquidator started'']\<rparr>)"
    using setup_no_bot(2)[of env accounts address emp config feed e' w] by simp
next
  assume "disputer_run fuel env address shouldPoll pollingDelay config w = Some (r, w')"
  then show "r = Inr ()"
    unfolding disputer_run_def by (rule try_catch_never_raises)
next
  assume "liquidator_run fuel env address shouldPoll pollingDelay config w = Some (r, w')"
  then show "r = Inr ()"
    unfolding liquidator_run_def by (rule try_catch_never_raises)
qed

theorem C8_setup_failure_witness:
  "createPriceFeed env_no_feed ''cfg'' = Inr None \<and>
   outcome (disputer_run 0 env_no_feed ''0xe3'' True 10000 ''cfg'' world0) =
     Some (Inr (), [LogInfo ''Disputer started'',
        LogError ''Disputer error'' (Error ''Price feed config is invalid''), WaitForLogger]) \<and>
   outcome (liquidator_run 0 env_no_feed ''0xe3'' True 10000 ''cfg'' world0) =
     Some (Inr (), [LogInfo ''Liquidator started'',
        LogError ''Liquidator polling error'' (Error ''Price feed config is invalid''),
        WaitForLogger]) \<and>
   new_Disputer env_no_bot = Some (Error ''bad disputer config'') \<and>
   new_Liquidator env_no_bot = Some (Error ''bad liquidator config'') \<and>
   disputer_setup env_no_bot ''0xe3'' ''cfg'' world0 =
     (Inl (Error ''bad disputer config''), world0\<lparr>trace := [LogInfo ''Disputer started'']\<rparr>) \<and>
   liquidator_setup env_no_bot ''0xe3'' ''cfg'' world0 =
     (Inl (Error ''bad liquidator config''), world0\<lparr>trace := [LogInfo ''Liquidator started'']\<rparr>)"
proof -
  have t0: "trace world0 = []" by (simp add: world0_def)
  have nf: "getAccounts env_no_feed = Inr [''0xb07'']" "emp_at env_no_feed ''0xe3'' = Inr ''0xe3''"
    "createPriceFeed env_no_feed ''cfg'' = Inr None"
    by (simp_all add: env_no_feed_def)
  have nb: "getAccounts env_no_bot = Inr [''0xb07'']" "emp_at env_no_bot ''0xe3'' = Inr ''0xe3''"
    "createPriceFeed env_no_bot ''cfg'' = Inr (Some ''cfg'')"
    "new_ExpiringMultiPartyClient env_no_bot = None" "new_GasEstimator env_no_bot = None"
    "new_Disputer env_no_bot = Some (Error ''bad disputer config'')"
    "new_Liquidator env_no_bot = Some (Error ''bad liquidator config'')"
    by (simp_all add: env_no_bot_def)
  define wd where "wd = world0\<lparr>trace := trace world0 @ [LogInfo ''Disputer started'']\<rparr>"
  define wl where "wl = world0\<lparr>trace := trace world0 @ [LogInfo ''Liquidator started'']\<rparr>"
  note feed = C8_setup_failure_is_logged[where env = env_no_feed and address = "''0xe3''"
      and config = "''cfg''" and w = world0 and e = "Error ''Price feed config is invalid''"
      and ?w1.0 = wd and fuel = 0 and shouldPoll = True and pollingDelay = 10000
      and accounts = "[''0xb07'']" and emp = "''0xe3''"]
  note feed' = C8_setup_failure_is_logged[where env = env_no_feed and address = "''0xe3''"
      and config = "''cfg''" and w = world0 and e = "Error ''Price feed config is invalid''"
      and ?w1.0 = wl and fuel = 0 and shouldPoll = True and pollingDelay = 10000
      and accounts = "[''0xb07'']" and emp = "''0xe3''"]
  from feed nf have sd: "disputer_setup env_no_feed ''0xe3'' ''cfg'' world0 =
      (Inl (Error ''Price feed config is invalid''), wd)"
    unfolding wd_def by blast
  from feed' nf have sl: "liquidator_setup env_no_feed ''0xe3'' ''cfg'' world0 =
      (Inl (Error ''Price feed config is invalid''), wl)"
    unfolding wl_def by blast
  from feed sd have rd: "disputer_run 0 env_no_feed ''0xe3'' True 10000 ''cfg'' world0 =
        Some (Inr (), wd\<lparr>trace := trace wd @
          [LogError ''Disputer error'' (Error ''Price feed config is invalid''), WaitForLogger]\<rparr>)"
    by blast
  from feed' sl have rl: "liquidator_run 0 env_no_feed ''0xe3'' True 10000 ''cfg'' world0 =
        Some (Inr (), wl\<lparr>trace := trace wl @
          [LogError ''Liquidator polling error'' (Error ''Price feed config is invalid''),
           WaitForLogger]\<rparr>)"
    by blast
  from C8_setup_failure_is_logged[where env = env_no_bot and address = "''0xe3''"
      and config = "''cfg''" and w = world0 and accounts = "[''0xb07'']" and emp = "''0xe3''"
      and feed = "''cfg''" and e = "Error ''bad disputer config''"
      and e' = "Error ''bad liquidator config''"] nb
  have bot: "disputer_setup env_no_bot ''0xe3'' ''cfg'' world0 =
        (Inl (Error ''bad disputer config''),
         world0\<lparr>trace := trace world0 @ [LogInfo ''Disputer started'']\<rparr>)"
    "liquidator_setup env_no_bot ''0xe3'' ''cfg'' world0 =
        (Inl (Error ''bad liquidator config''),
         world0\<lparr>trace := trace world0 @ [LogInfo ''Liquidator started'']\<rparr>)"
    by blast+
  show ?thesis
    using nf(3) nb(6,7) bot
    by (simp add: rd rl outcome_def wd_def wl_def t0)
qed

theorem C8_setup_error_is_swallowed:
  "createPriceFeed env_no_feed ''cfg'' = Inr None \<and>
   map_option fst (disputer_run 3 env_no_feed ''0xe3'' True 10000 ''cfg'' world0) =
     Some (Inr ()) \<and>
   map_option fst (liquidator_run 3 env_no_feed ''0xe3'' True 10000 ''cfg'' world0) =
     Some (Inr ())"
proof -
  have nf: "getAccounts env_no_feed = Inr [''0xb07'']" "emp_at env_no_feed ''0xe3'' = Inr ''0xe3''"
    "createPriceFeed env_no_feed ''cfg'' = Inr None"
    by (simp_all add: env_no_feed_def)
  note s = setup_no_feed[OF nf, of world0]
  have "map_option fst (disputer_run 3 env_no_feed ''0xe3'' True 10000 ''cfg'' world0) =
     Some (Inr ())"
    unfolding disputer_run_def
      run_on_setup_failure[where prelude = "disputer_setup env_no_feed ''0xe3'' ''cfg''", OF s(1)]
    by simp
  moreover have "map_option fst (liquidator_run 3 env_no_feed ''0xe3'' True 10000 ''cfg'' world0) =
     Some (Inr ())"
    unfolding liquidator_run_def
      run_on_setup_failure[where prelude = "liquidator_setup env_no_feed ''0xe3'' ''cfg''", OF s(2)]
    by simp
  ultimately show ?thesis using nf(3) by simp
qed

end
